theory Spec2Isabelle
  imports Main
begin

section \<open>Data model of \<open>script.js\<close>\<close>

text \<open>
  The application keeps one document, \<open>state.data\<close>, and writes its JSON text to one
  slot of the browser's local storage. Strings are lists of code units; a \<open>char\<close> here
  is a code unit in the range U+0000 to U+00FF. Identifiers, the counter and the
  millisecond timestamps are natural numbers. A property that is \<open>null\<close> in the document
  is \<open>None\<close>; a property that an object may lack (\<open>pronunciation\<close> of the placeholder
  text of a soft-deleted post, \<open>imageRemoved\<close> of a reply) is \<open>None\<close> as well.
\<close>

record text_variant =
  content :: string
  language :: string
  pronunciation :: "string option"

text \<open>The fields posts and replies share; \<open>entry_id\<close> is the property \<open>id\<close>.\<close>

record entry =
  entry_id :: nat
  texts :: "text_variant list"
  tags :: "string list"
  createdAt :: nat
  updatedAt :: nat
  imageId :: "string option"
  imageRemoved :: "bool option"
  isDeleted :: bool

record post = entry +
  liked :: bool
  likedAt :: "nat option"
  repostOf :: "nat option"

record reply = entry +
  postId :: nat

text \<open>
  \<open>images\<close> is a JavaScript object used as a dictionary: an association list in
  insertion order, which is the order \<open>Object.entries\<close> walks it in.
\<close>

record app_data =
  version :: nat
  posts :: "post list"
  replies :: "reply list"
  images :: "(string \<times> string) list"
  lastId :: nat

text \<open>
  The part of the world the functions below touch: the document in memory and the
  storage slot \<open>lang-sns-data\<close>. The slot holds a JSON text; it is represented by the
  document whose serialization it is. \<open>localStorage.setItem\<close> is taken to store
  whatever text it is given: the code has no handler for a refused write.
\<close>

record world =
  data :: app_data
  stored :: "app_data option"

definition DATA_VERSION :: nat where
  "DATA_VERSION = 1"

definition STORAGE_LIMIT :: nat where
  "STORAGE_LIMIT = 5 * 1024 * 1024"

definition defaultData :: app_data where
  "defaultData = \<lparr>version = DATA_VERSION, posts = [], replies = [], images = [], lastId = 0\<rparr>"

text \<open>
  JavaScript truthiness of a value that is \<open>null\<close> or a string: the tests
  \<open>if (!imageId)\<close>, \<open>.filter((p) => p.imageId)\<close>, \<open>imageId || null\<close> and
  \<open>if (tagFilter)\<close> all read it.
\<close>

fun truthy :: "string option \<Rightarrow> bool" where
  "truthy None = False"
| "truthy (Some s) = (s \<noteq> [])"

section \<open>Length of \<open>JSON.stringify(state.data)\<close>\<close>

text \<open>
  \<open>JSON.stringify\<close> writes a string between quotes, a quote and a backslash as two
  code units, the control characters with a short escape (backspace, tab, line feed,
  form feed, carriage return) as two and the other code units below U+0020 as six
  (\<open>\u00XX\<close>). No white space is inserted.
\<close>

definition escape_length :: "char \<Rightarrow> nat" where
  "escape_length c =
     (let n = (of_char c :: nat) in
      if n = 34 \<or> n = 92 then 2
      else if n < 32 then (if n = 8 \<or> n = 9 \<or> n = 10 \<or> n = 12 \<or> n = 13 then 2 else 6)
      else 1)"

definition string_length :: "string \<Rightarrow> nat" where
  "string_length s = 2 + sum_list (map escape_length s)"

text \<open>An integer below \<open>10^21\<close> is written in decimal digits.\<close>

fun number_length :: "nat \<Rightarrow> nat" where
  "number_length n = (if n < 10 then 1 else 1 + number_length (n div 10))"

definition bool_length :: "bool \<Rightarrow> nat" where
  "bool_length b = (if b then 4 else 5)"

definition nullable_length :: "('a \<Rightarrow> nat) \<Rightarrow> 'a option \<Rightarrow> nat" where
  "nullable_length f v = (case v of None \<Rightarrow> 4 | Some x \<Rightarrow> f x)"

text \<open>
  A list of \<open>n\<close> items, given by their lengths, between brackets or braces with
  \<open>n - 1\<close> commas; a member is its quoted key, a colon and its value.
\<close>

definition items_length :: "nat list \<Rightarrow> nat" where
  "items_length ls = 2 + sum_list ls + (length ls - 1)"

definition member_length :: "string \<Rightarrow> nat \<Rightarrow> nat" where
  "member_length k l = string_length k + 1 + l"

definition optional_member :: "string \<Rightarrow> ('a \<Rightarrow> nat) \<Rightarrow> 'a option \<Rightarrow> nat list" where
  "optional_member k f v = (case v of None \<Rightarrow> [] | Some x \<Rightarrow> [member_length k (f x)])"

definition text_length :: "text_variant \<Rightarrow> nat" where
  "text_length t =
     items_length
       ([member_length ''content'' (string_length (content t)),
         member_length ''language'' (string_length (language t))]
        @ optional_member ''pronunciation'' string_length (pronunciation t))"

definition post_length :: "post \<Rightarrow> nat" where
  "post_length p =
     items_length
       ([member_length ''id'' (number_length (entry_id p)),
         member_length ''texts'' (items_length (map text_length (texts p))),
         member_length ''tags'' (items_length (map string_length (tags p))),
         member_length ''createdAt'' (number_length (createdAt p)),
         member_length ''updatedAt'' (number_length (updatedAt p)),
         member_length ''imageId'' (nullable_length string_length (imageId p))]
        @ optional_member ''imageRemoved'' bool_length (imageRemoved p)
        @ [member_length ''isDeleted'' (bool_length (isDeleted p)),
           member_length ''liked'' (bool_length (liked p)),
           member_length ''likedAt'' (nullable_length number_length (likedAt p)),
           member_length ''repostOf'' (nullable_length number_length (repostOf p))])"

definition reply_length :: "reply \<Rightarrow> nat" where
  "reply_length r =
     items_length
       ([member_length ''id'' (number_length (entry_id r)),
         member_length ''postId'' (number_length (postId r)),
         member_length ''texts'' (items_length (map text_length (texts r))),
         member_length ''tags'' (items_length (map string_length (tags r))),
         member_length ''createdAt'' (number_length (createdAt r)),
         member_length ''updatedAt'' (number_length (updatedAt r)),
         member_length ''imageId'' (nullable_length string_length (imageId r)),
         member_length ''isDeleted'' (bool_length (isDeleted r))]
        @ optional_member ''imageRemoved'' bool_length (imageRemoved r))"

definition images_length :: "(string \<times> string) list \<Rightarrow> nat" where
  "images_length im = items_length (map (\<lambda>(k, v). member_length k (string_length v)) im)"

text \<open>\<open>JSON.stringify(state.data).length\<close>.\<close>

definition serialized_length :: "app_data \<Rightarrow> nat" where
  "serialized_length d =
     items_length
       [member_length ''version'' (number_length (version d)),
        member_length ''posts'' (items_length (map post_length (posts d))),
        member_length ''replies'' (items_length (map reply_length (replies d))),
        member_length ''images'' (images_length (images d)),
        member_length ''lastId'' (number_length (lastId d))]"

section \<open>Releasing images and the storage limit\<close>

text \<open>
  \<open>removeImageIfUnused(imageId)\<close>: nothing for a falsy id; otherwise the payload is
  deleted from \<open>images\<close> unless some post or reply holds that id at the moment of the
  call.
\<close>

definition removeImageIfUnused :: "string option \<Rightarrow> app_data \<Rightarrow> app_data" where
  "removeImageIfUnused iid d =
     (if \<not> truthy iid then d
      else
        let used = list_ex (\<lambda>p. imageId p = iid) (posts d) \<or>
                   list_ex (\<lambda>r. imageId r = iid) (replies d)
        in if \<not> used then d\<lparr>images := filter (\<lambda>(k, v). Some k \<noteq> iid) (images d)\<rparr> else d)"

text \<open>
  The candidates of one pass of the loop of \<open>enforceStorageLimit\<close>: the posts with a
  truthy \<open>imageId\<close>, sorted by \<open>(a, b) => a.createdAt - b.createdAt\<close>.
  \<open>Array.prototype.sort\<close> is stable, and so is \<open>sort_key\<close>. The JavaScript array
  holds references to the post objects; here each candidate carries its position in
  \<open>posts\<close>, which stands for the object's identity.
\<close>

definition candidates :: "app_data \<Rightarrow> (nat \<times> post) list" where
  "candidates d =
     sort_key (\<lambda>ip. createdAt (snd ip))
       (filter (\<lambda>ip. truthy (imageId (snd ip))) (enumerate 0 (posts d)))"

text \<open>
  The body of the loop once a candidate exists: \<open>removeImageIfUnused(target.imageId)\<close>,
  then \<open>target.imageId = null\<close> and \<open>target.imageRemoved = true\<close>, in this order.
\<close>

definition stripped :: "post \<Rightarrow> post" where
  "stripped p = p\<lparr>imageId := None, imageRemoved := Some True\<rparr>"

definition strip_target :: "nat \<times> post \<Rightarrow> app_data \<Rightarrow> app_data" where
  "strip_target ip d =
     (let d1 = removeImageIfUnused (imageId (snd ip)) d
      in d1\<lparr>posts := (posts d1)[fst ip := stripped (posts d1 ! fst ip)]\<rparr>)"

definition image_posts :: "app_data \<Rightarrow> nat" where
  "image_posts d = length (filter (\<lambda>p. truthy (imageId p)) (posts d))"

lemma candidates_length: "length (candidates d) = image_posts d"
proof -
  have "length (filter (\<lambda>p. truthy (imageId p)) (map snd (enumerate 0 (posts d))))
        = length (filter (\<lambda>ip. truthy (imageId (snd ip))) (enumerate 0 (posts d)))"
    by (simp only: filter_map comp_def length_map)
  then show ?thesis by (simp add: candidates_def image_posts_def)
qed

lemma candidates_set:
  "set (candidates d) = {(i, p). i < length (posts d) \<and> p = posts d ! i \<and> truthy (imageId p)}"
  by (auto simp: candidates_def in_set_enumerate_eq)

lemma posts_removeImageIfUnused [simp]: "posts (removeImageIfUnused iid d) = posts d"
  by (simp add: removeImageIfUnused_def Let_def)

lemma replies_removeImageIfUnused [simp]: "replies (removeImageIfUnused iid d) = replies d"
  by (simp add: removeImageIfUnused_def Let_def)

lemma filter_update_drop:
  "i < length xs \<Longrightarrow> P (xs ! i) \<Longrightarrow> \<not> P y \<Longrightarrow>
   length (filter P (xs[i := y])) < length (filter P xs)"
proof (induction xs arbitrary: i)
  case Nil
  then show ?case by simp
next
  case (Cons x xs)
  show ?case
  proof (cases i)
    case 0
    with Cons.prems show ?thesis by simp
  next
    case (Suc j)
    with Cons.prems have "length (filter P (xs[j := y])) < length (filter P xs)"
      by (intro Cons.IH) simp_all
    with Suc show ?thesis by simp
  qed
qed

lemma strip_target_decreases:
  assumes "ip \<in> set (candidates d)"
  shows "image_posts (strip_target ip d) < image_posts d"
proof -
  from assms have i: "fst ip < length (posts d)" and t: "truthy (imageId (posts d ! fst ip))"
    by (auto simp: candidates_set)
  show ?thesis
    unfolding image_posts_def strip_target_def Let_def
    using i t by (simp add: filter_update_drop stripped_def)
qed

text \<open>
  The loop of \<open>enforceStorageLimit\<close>: while the serialization is longer than the
  limit, stop if there is no candidate, otherwise strip the first one and serialize
  again.
\<close>

function evict :: "app_data \<Rightarrow> app_data" where
  "evict d =
     (if serialized_length d > STORAGE_LIMIT then
        (case candidates d of
           [] \<Rightarrow> d
         | target # _ \<Rightarrow> evict (strip_target target d))
      else d)"
  by pat_completeness auto
termination
proof (relation "measure image_posts")
  show "wf (measure image_posts)" by simp
next
  fix d :: app_data and target rest
  assume "candidates d = target # rest"
  then have "target \<in> set (candidates d)" by simp
  then show "(strip_target target d, d) \<in> measure image_posts"
    by (simp add: strip_target_decreases)
qed

declare evict.simps [simp del]

text \<open>
  \<open>enforceStorageLimit\<close> runs the loop on the document and writes the last
  serialization to the slot; \<open>persistData\<close> writes the document as it is and then
  enforces the limit.
\<close>

definition enforceStorageLimit :: "world \<Rightarrow> world" where
  "enforceStorageLimit w = (let d = evict (data w) in w\<lparr>data := d, stored := Some d\<rparr>)"

definition persistData :: "world \<Rightarrow> world" where
  "persistData w = enforceStorageLimit (w\<lparr>stored := Some (data w)\<rparr>)"

section \<open>What the eviction loop keeps and changes\<close>

lemma candidate_facts:
  assumes "ip \<in> set (candidates d)"
  shows "fst ip < length (posts d)" and "snd ip = posts d ! fst ip" and "truthy (imageId (snd ip))"
  using assms by (auto simp: candidates_set)

lemma removeImageIfUnused_held:
  assumes "p \<in> set (posts d)"
  shows "removeImageIfUnused (imageId p) d = d"
  using assms by (auto simp: removeImageIfUnused_def Let_def list_ex_iff)

lemma strip_target_eq:
  assumes "ip \<in> set (candidates d)"
  shows "strip_target ip d = d\<lparr>posts := (posts d)[fst ip := stripped (posts d ! fst ip)]\<rparr>"
proof -
  from assms have "snd ip \<in> set (posts d)"
    by (auto simp: candidates_set)
  then have "removeImageIfUnused (imageId (snd ip)) d = d"
    by (rule removeImageIfUnused_held)
  then show ?thesis by (simp add: strip_target_def)
qed

text \<open>
  Induction along the passes of the loop: a document on which the loop stops at once,
  and a document on which it strips the first candidate and goes on.
\<close>

lemma evict_passes [case_names stop pass]:
  assumes "\<And>d. evict d = d \<Longrightarrow>
             serialized_length d \<le> STORAGE_LIMIT \<or> candidates d = [] \<Longrightarrow> P d"
    and "\<And>d target. target \<in> set (candidates d) \<Longrightarrow> STORAGE_LIMIT < serialized_length d \<Longrightarrow>
             evict d = evict (strip_target target d) \<Longrightarrow> P (strip_target target d) \<Longrightarrow> P d"
  shows "P d"
proof (induction d rule: evict.induct)
  case (1 d)
  show ?case
  proof (cases "serialized_length d > STORAGE_LIMIT")
    case False
    then show ?thesis by (intro assms(1)) (simp_all add: evict.simps [of d])
  next
    case over: True
    show ?thesis
    proof (cases "candidates d")
      case Nil
      with over show ?thesis by (intro assms(1)) (simp_all add: evict.simps [of d])
    next
      case (Cons target rest)
      then have "target \<in> set (candidates d)" by simp
      moreover note over
      moreover have "evict d = evict (strip_target target d)"
        using over Cons by (simp add: evict.simps [of d])
      moreover note "1.IH" [OF over Cons]
      ultimately show ?thesis by (rule assms(2))
    qed
  qed
qed

lemma evict_only_posts: "evict d = d\<lparr>posts := posts (evict d)\<rparr>"
proof (induction d rule: evict_passes)
  case (stop d)
  then show ?case by simp
next
  case (pass d target)
  then show ?case by (simp add: strip_target_eq)
qed

lemma evict_images: "images (evict d) = images d"
  by (subst evict_only_posts) simp

lemma evict_replies: "replies (evict d) = replies d"
  by (subst evict_only_posts) simp

lemma evict_lastId: "lastId (evict d) = lastId d"
  by (subst evict_only_posts) simp

lemma evict_exit: "serialized_length (evict d) \<le> STORAGE_LIMIT \<or> candidates (evict d) = []"
proof (induction d rule: evict_passes)
  case (stop d)
  then show ?case by simp
next
  case (pass d target)
  then show ?case by simp
qed

lemma evict_posts:
  "length (posts (evict d)) = length (posts d) \<and>
   (\<forall>j < length (posts d).
      posts (evict d) ! j = posts d ! j \<or>
      (truthy (imageId (posts d ! j)) \<and> posts (evict d) ! j = stripped (posts d ! j)))"
proof (induction d rule: evict_passes)
  case (stop d)
  then show ?case by simp
next
  case (pass d target)
  let ?d1 = "strip_target target d"
  have p1: "posts ?d1 = (posts d)[fst target := stripped (posts d ! fst target)]"
    using pass(1) by (simp add: strip_target_eq)
  have tr: "truthy (imageId (posts d ! fst target))"
    using candidate_facts [OF pass(1)] by simp
  have len: "length (posts (evict d)) = length (posts d)"
    using pass(3,4) p1 by simp
  have "posts (evict d) ! j = posts d ! j \<or>
        (truthy (imageId (posts d ! j)) \<and> posts (evict d) ! j = stripped (posts d ! j))"
    if j: "j < length (posts d)" for j
  proof -
    from pass(4) j p1 have c: "posts (evict ?d1) ! j = posts ?d1 ! j \<or>
        (truthy (imageId (posts ?d1 ! j)) \<and> posts (evict ?d1) ! j = stripped (posts ?d1 ! j))"
      by simp
    show ?thesis
    proof (cases "j = fst target")
      case True
      then have "posts ?d1 ! j = stripped (posts d ! j)"
        using p1 j by simp
      moreover have "\<not> truthy (imageId (stripped (posts d ! j)))"
        by (simp add: stripped_def)
      ultimately show ?thesis using c pass(3) tr True by auto
    next
      case False
      then have "posts ?d1 ! j = posts d ! j"
        using p1 by simp
      then show ?thesis using c pass(3) by auto
    qed
  qed
  with len show ?case by blast
qed

lemma evict_map_posts:
  assumes "\<And>p. f (stripped p) = f p"
  shows "map f (posts (evict d)) = map f (posts d)"
proof (rule nth_equalityI)
  show "length (map f (posts (evict d))) = length (map f (posts d))"
    using evict_posts [of d] by simp
next
  fix j assume "j < length (map f (posts (evict d)))"
  then have j: "j < length (posts d)" and j': "j < length (posts (evict d))"
    using evict_posts [of d] by simp_all
  from evict_posts [of d] j
  have "posts (evict d) ! j = posts d ! j \<or> posts (evict d) ! j = stripped (posts d ! j)"
    by blast
  then have "f (posts (evict d) ! j) = f (posts d ! j)"
    using assms by auto
  then show "map f (posts (evict d)) ! j = map f (posts d) ! j"
    using j j' by simp
qed

lemma evict_texts: "map texts (posts (evict d)) = map texts (posts d)"
  by (rule evict_map_posts) (simp add: stripped_def)

lemma evict_tags: "map tags (posts (evict d)) = map tags (posts d)"
  by (rule evict_map_posts) (simp add: stripped_def)

lemma evict_updatedAt: "map updatedAt (posts (evict d)) = map updatedAt (posts d)"
  by (rule evict_map_posts) (simp add: stripped_def)

lemma evict_isDeleted: "map isDeleted (posts (evict d)) = map isDeleted (posts d)"
  by (rule evict_map_posts) (simp add: stripped_def)

lemma evict_post_field:
  assumes "\<And>p. f (stripped p) = f p" and "i < length (posts d)"
  shows "f (posts (evict d) ! i) = f (posts d ! i)"
proof -
  have "map f (posts (evict d)) ! i = map f (posts d) ! i"
    by (simp only: evict_map_posts [of f, OF assms(1)])
  moreover have "i < length (posts (evict d))"
    using evict_posts [of d] assms(2) by simp
  ultimately show ?thesis using assms(2) by simp
qed

section \<open>Payloads in the serialization, and the loop with a budget of passes\<close>

definition payload_total :: "(string \<times> string) list \<Rightarrow> nat" where
  "payload_total im = sum_list (map (\<lambda>kv. length (snd kv)) im)"

lemma escape_length_pos: "1 \<le> escape_length c"
  by (simp add: escape_length_def Let_def)

lemma length_le_string_length: "length s \<le> string_length s"
proof -
  have "length s \<le> sum_list (map escape_length s)"
  proof (induction s)
    case Nil
    show ?case by simp
  next
    case (Cons c s)
    with escape_length_pos [of c] show ?case by simp
  qed
  then show ?thesis by (simp add: string_length_def)
qed

lemma payload_total_le_images_length: "payload_total im \<le> images_length im"
proof -
  have "payload_total im \<le> sum_list (map (\<lambda>(k, v). member_length k (string_length v)) im)"
  proof (induction im)
    case Nil
    show ?case by (simp add: payload_total_def)
  next
    case (Cons kv im)
    have "length (snd kv) \<le> member_length (fst kv) (string_length (snd kv))"
      using length_le_string_length [of "snd kv"] by (simp add: member_length_def)
    with Cons show ?case by (simp add: payload_total_def case_prod_beta)
  qed
  then show ?thesis by (simp add: images_length_def items_length_def)
qed

lemma payload_total_le_serialized: "payload_total (images d) \<le> serialized_length d"
  using payload_total_le_images_length [of "images d"]
  by (simp add: serialized_length_def items_length_def member_length_def)










section \<open>A document over the limit\<close>

text \<open>
  Post A, created first, holds image X with a payload of 2 MB; post B holds image Y with
  a payload of 4 MB. This is the document in memory when B has been pushed and
  \<open>persistData\<close> is about to run.
\<close>

definition payload_X :: string where
  "payload_X = replicate (2 * 1024 * 1024) (CHR ''x'')"

definition payload_Y :: string where
  "payload_Y = replicate (4 * 1024 * 1024) (CHR ''y'')"

definition image_X :: string where
  "image_X = ''img-1700000000000-a1b2''"

definition image_Y :: string where
  "image_Y = ''img-1700000060000-c3d4''"

definition post_A :: post where
  "post_A =
     \<lparr>entry_id = 1,
      texts = [\<lparr>content = ''first'', language = ''ja'', pronunciation = Some ''''\<rparr>],
      tags = [], createdAt = 1700000000000, updatedAt = 1700000000000,
      imageId = Some image_X, imageRemoved = Some False, isDeleted = False,
      liked = False, likedAt = None, repostOf = None\<rparr>"

definition post_B :: post where
  "post_B =
     \<lparr>entry_id = 2,
      texts = [\<lparr>content = ''second'', language = ''ja'', pronunciation = Some ''''\<rparr>],
      tags = [], createdAt = 1700000060000, updatedAt = 1700000060000,
      imageId = Some image_Y, imageRemoved = Some False, isDeleted = False,
      liked = False, likedAt = None, repostOf = None\<rparr>"

definition scenario :: app_data where
  "scenario =
     \<lparr>version = 1, posts = [post_A, post_B], replies = [],
      images = [(image_X, payload_X), (image_Y, payload_Y)], lastId = 2\<rparr>"

lemma length_payload_X: "length payload_X = 2097152"
  by (simp add: payload_X_def)

lemma length_payload_Y: "length payload_Y = 4194304"
  by (simp add: payload_Y_def)

lemma scenario_payload_total: "payload_total (images scenario) = 6291456"
  by (simp add: scenario_def payload_total_def length_payload_X length_payload_Y)

lemma scenario_over_limit: "STORAGE_LIMIT < serialized_length scenario"
  using payload_total_le_serialized [of scenario]
  by (simp add: scenario_payload_total STORAGE_LIMIT_def)

lemma scenario_candidates: "candidates scenario = [(0, post_A), (1, post_B)]"
  by (simp add: candidates_def scenario_def enumerate_simps post_A_def post_B_def image_X_def image_Y_def)


section \<open>Termination of the eviction loop\<close>



section \<open>Which post a pass strips\<close>

lemma sorted_fst_head_least:
  assumes "sorted (map fst xs)" and "xs = t # rest" and "y \<in> set xs"
  shows "fst t \<le> (fst y :: nat)"
  using assms by auto

lemma candidates_head_oldest:
  assumes c: "candidates d = target # rest"
    and j: "j < length (posts d)" and tj: "truthy (imageId (posts d ! j))"
  shows "createdAt (snd target) \<le> createdAt (posts d ! j)"
    and "createdAt (posts d ! j) = createdAt (snd target) \<Longrightarrow> fst target \<le> j"
proof -
  let ?f = "\<lambda>ip :: nat \<times> post. createdAt (snd ip)"
  let ?xs = "filter (\<lambda>ip. truthy (imageId (snd ip))) (enumerate 0 (posts d))"
  have cs: "sort_key ?f ?xs = target # rest"
    using c by (simp add: candidates_def)
  have mem: "(j, posts d ! j) \<in> set ?xs"
    using j tj by (simp add: in_set_enumerate_eq)
  have "sorted (map ?f (sort_key ?f ?xs))"
    by (rule sorted_sort_key)
  then have least: "\<forall>y \<in> set rest. ?f target \<le> ?f y"
    using cs by simp
  have "(j, posts d ! j) \<in> set (sort_key ?f ?xs)"
    using mem by simp
  then have "(j, posts d ! j) = target \<or> (j, posts d ! j) \<in> set rest"
    using cs by simp
  then show "createdAt (snd target) \<le> createdAt (posts d ! j)"
    using least by auto
  assume eq: "createdAt (posts d ! j) = createdAt (snd target)"
  let ?k = "createdAt (snd target)"
  have st: "filter (\<lambda>y. ?f y = ?k) (sort_key ?f ?xs) = filter (\<lambda>y. ?f y = ?k) ?xs"
    by (rule sort_key_stable)
  have hd: "filter (\<lambda>y. ?f y = ?k) ?xs = target # filter (\<lambda>y. ?f y = ?k) rest"
    using st cs by simp
  have "sorted (map fst (enumerate 0 (posts d)))"
    by simp
  then have "sorted (map fst ?xs)"
    by (rule sorted_filter)
  then have "sorted (map fst (filter (\<lambda>y. ?f y = ?k) ?xs))"
    by (rule sorted_filter)
  moreover have "(j, posts d ! j) \<in> set (filter (\<lambda>y. ?f y = ?k) ?xs)"
    using mem eq by simp
  ultimately have "fst target \<le> fst (j, posts d ! j)"
    using hd by (intro sorted_fst_head_least)
  then show "fst target \<le> j" by simp
qed

text \<open>
  C4, as the code has it. On every pass that strips an image the loop takes the head of
  \<open>candidates\<close>. That post has a truthy \<open>imageId\<close> (not \<open>null\<close> and not the empty
  string), no post with a truthy \<open>imageId\<close> has a smaller \<open>createdAt\<close>, and among
  those with the same \<open>createdAt\<close> it is the first in \<open>posts\<close>; the pass changes
  this post only. The loop leaves \<open>replies\<close> as it is, and every image a reply refers
  to keeps its payload.
\<close>

theorem eviction_selects_oldest_post:
  assumes "candidates d = target # rest"
  shows "fst target < length (posts d) \<and> snd target = posts d ! fst target \<and>
         truthy (imageId (snd target)) \<and>
         (\<forall>j < length (posts d). truthy (imageId (posts d ! j)) \<longrightarrow>
            createdAt (snd target) \<le> createdAt (posts d ! j) \<and>
            (createdAt (posts d ! j) = createdAt (snd target) \<longrightarrow> fst target \<le> j)) \<and>
         (STORAGE_LIMIT < serialized_length d \<longrightarrow> evict d = evict (strip_target target d)) \<and>
         posts (strip_target target d) = (posts d)[fst target := stripped (snd target)] \<and>
         replies (strip_target target d) = replies d \<and>
         replies (evict d) = replies d \<and>
         (\<forall>k. list_ex (\<lambda>r. imageId r = Some k) (replies d) \<longrightarrow>
            map_of (images (evict d)) k = map_of (images d) k)"
proof -
  from assms have mem: "target \<in> set (candidates d)" by simp
  note cf = candidate_facts [OF mem]
  have "createdAt (snd target) \<le> createdAt (posts d ! j) \<and>
      (createdAt (posts d ! j) = createdAt (snd target) \<longrightarrow> fst target \<le> j)"
    if "j < length (posts d)" and "truthy (imageId (posts d ! j))" for j
    using candidates_head_oldest [OF assms that] by blast
  moreover have "STORAGE_LIMIT < serialized_length d \<longrightarrow> evict d = evict (strip_target target d)"
    using assms by (simp add: evict.simps [of d])
  moreover have "posts (strip_target target d) = (posts d)[fst target := stripped (snd target)]"
    using cf(2) by (simp add: strip_target_eq [OF mem])
  moreover have "replies (strip_target target d) = replies d"
    by (simp add: strip_target_eq [OF mem])
  ultimately show ?thesis
    using cf by (simp add: evict_replies evict_images)
qed

theorem eviction_selects_oldest_post_witness:
  "candidates scenario = (0, post_A) # [(1, post_B)] \<and>
   truthy (imageId post_A) \<and>
   createdAt post_A \<le> createdAt post_B \<and>
   evict scenario = evict (strip_target (0, post_A) scenario) \<and>
   posts (strip_target (0, post_A) scenario) = [stripped post_A, post_B] \<and>
   replies (evict scenario) = replies scenario"
proof -
  have c: "candidates scenario = (0, post_A) # [(1, post_B)]"
    by (simp add: scenario_candidates)
  have l: "posts scenario = [post_A, post_B]"
    by (simp add: scenario_def)
  note th = eviction_selects_oldest_post [OF c]
  from th have "truthy (imageId (snd (0 :: nat, post_A)))"
    by (rule conjunct1 [OF conjunct2 [OF conjunct2]])
  then have a: "truthy (imageId post_A)" by simp
  from th have "\<forall>j < length (posts scenario). truthy (imageId (posts scenario ! j)) \<longrightarrow>
      createdAt (snd (0 :: nat, post_A)) \<le> createdAt (posts scenario ! j) \<and>
      (createdAt (posts scenario ! j) = createdAt (snd (0 :: nat, post_A)) \<longrightarrow> fst (0 :: nat, post_A) \<le> j)"
    by blast
  from this [rule_format, of 1] have b: "createdAt post_A \<le> createdAt post_B"
    by (simp add: l) (simp add: post_B_def image_Y_def)
  from th scenario_over_limit have e: "evict scenario = evict (strip_target (0, post_A) scenario)"
    by blast
  from th have "posts (strip_target (0, post_A) scenario)
      = (posts scenario)[fst (0 :: nat, post_A) := stripped (snd (0 :: nat, post_A))]"
    by blast
  then have p: "posts (strip_target (0, post_A) scenario) = [stripped post_A, post_B]"
    by (simp add: l)
  from th have r: "replies (evict scenario) = replies scenario"
    by blast
  from c a b e p r show ?thesis by blast
qed

text \<open>
  The document of the scenario with the empty string as the \<open>imageId\<close> of post A, as
  an imported file can have it: a value that is not \<open>null\<close> and that the test
  \<open>p.imageId\<close> takes for no image.
\<close>

definition post_A_blank :: post where
  "post_A_blank = post_A\<lparr>imageId := Some ''''\<rparr>"

definition blank_id_scenario :: app_data where
  "blank_id_scenario = scenario\<lparr>posts := [post_A_blank, post_B]\<rparr>"

lemma blank_id_payload_total: "payload_total (images blank_id_scenario) = 6291456"
  by (simp add: blank_id_scenario_def scenario_def payload_total_def length_payload_X
      length_payload_Y)

lemma blank_id_over_limit: "STORAGE_LIMIT < serialized_length blank_id_scenario"
  using payload_total_le_serialized [of blank_id_scenario]
  by (simp add: blank_id_payload_total STORAGE_LIMIT_def)

lemma blank_id_candidates: "candidates blank_id_scenario = [(1, post_B)]"
  by (simp add: candidates_def blank_id_scenario_def scenario_def enumerate_simps
      post_A_blank_def post_A_def post_B_def image_Y_def)

text \<open>
  C4 as stated fails on \<open>blank_id_scenario\<close>: the document is over the limit, post A
  has a non-null \<open>imageId\<close> and the smaller \<open>createdAt\<close>, and the pass selects post B
  and strips it, leaving post A as it is.
\<close>

theorem eviction_skips_empty_id_counterexample:
  "STORAGE_LIMIT < serialized_length blank_id_scenario \<and>
   posts blank_id_scenario = [post_A_blank, post_B] \<and>
   imageId post_A_blank = Some '''' \<and>
   createdAt post_A_blank < createdAt post_B \<and>
   candidates blank_id_scenario = [(1, post_B)] \<and>
   evict blank_id_scenario = evict (strip_target (1, post_B) blank_id_scenario) \<and>
   posts (strip_target (1, post_B) blank_id_scenario) = [post_A_blank, stripped post_B]"
proof -
  have p: "posts blank_id_scenario = [post_A_blank, post_B]"
    by (simp add: blank_id_scenario_def)
  have mem: "(1, post_B) \<in> set (candidates blank_id_scenario)"
    by (simp add: blank_id_candidates)
  have e: "evict blank_id_scenario = evict (strip_target (1, post_B) blank_id_scenario)"
    using blank_id_over_limit blank_id_candidates
    by (simp add: evict.simps [of blank_id_scenario])
  have s: "posts (strip_target (1, post_B) blank_id_scenario) = [post_A_blank, stripped post_B]"
    unfolding strip_target_eq [OF mem] p by simp
  have "imageId post_A_blank = Some ''''" and "createdAt post_A_blank < createdAt post_B"
    by (simp_all add: post_A_blank_def post_A_def post_B_def)
  with blank_id_over_limit p blank_id_candidates e s show ?thesis by blast
qed

section \<open>The state after \<open>persistData\<close>\<close>

lemma candidates_empty_iff:
  "candidates d = [] \<longleftrightarrow> list_all (\<lambda>p. \<not> truthy (imageId p)) (posts d)"
proof -
  have "candidates d = [] \<longleftrightarrow> image_posts d = 0"
    using candidates_length [of d] by auto
  also have "\<dots> \<longleftrightarrow> list_all (\<lambda>p. \<not> truthy (imageId p)) (posts d)"
    by (simp add: image_posts_def filter_empty_conv list_all_iff)
  finally show ?thesis .
qed

lemma data_persistData: "data (persistData w) = evict (data w)"
  by (simp add: persistData_def enforceStorageLimit_def Let_def)

lemma stored_persistData: "stored (persistData w) = Some (evict (data w))"
  by (simp add: persistData_def enforceStorageLimit_def Let_def)

text \<open>
  C3, as the code has it. For every document: when \<open>persistData\<close> has run, the
  serialization of the document is within the limit or no post has a truthy
  \<open>imageId\<close> (one that is not \<open>null\<close> and not the empty string); these posts are the
  candidates of the loop. \<open>persistData\<close> always returns, and the slot then holds the
  serialization of the resulting document; that document is over the limit only if no
  candidate remains, and a document over the limit that has no candidate is written
  as it is.
\<close>

theorem persistData_within_limit_or_unevictable:
  "(serialized_length (data (persistData w)) \<le> STORAGE_LIMIT \<or>
    list_all (\<lambda>p. \<not> truthy (imageId p)) (posts (data (persistData w)))) \<and>
   (candidates (data (persistData w)) = [] \<longleftrightarrow>
      list_all (\<lambda>p. \<not> truthy (imageId p)) (posts (data (persistData w)))) \<and>
   stored (persistData w) = Some (data (persistData w)) \<and>
   (STORAGE_LIMIT < serialized_length (data (persistData w)) \<longrightarrow>
      candidates (data (persistData w)) = []) \<and>
   (STORAGE_LIMIT < serialized_length (data w) \<and> candidates (data w) = [] \<longrightarrow>
      data (persistData w) = data w \<and> stored (persistData w) = Some (data w))"
proof -
  have x: "serialized_length (evict (data w)) \<le> STORAGE_LIMIT \<or> candidates (evict (data w)) = []"
    by (rule evict_exit)
  then have "serialized_length (evict (data w)) \<le> STORAGE_LIMIT \<or>
      list_all (\<lambda>p. \<not> truthy (imageId p)) (posts (evict (data w)))"
    by (simp add: candidates_empty_iff)
  moreover have "STORAGE_LIMIT < serialized_length (evict (data w)) \<longrightarrow>
      candidates (evict (data w)) = []"
    using x by auto
  moreover have "STORAGE_LIMIT < serialized_length (data w) \<and> candidates (data w) = [] \<longrightarrow>
      evict (data w) = data w"
    by (simp add: evict.simps [of "data w"])
  ultimately show ?thesis
    by (simp add: data_persistData stored_persistData candidates_empty_iff)
qed

text \<open>
  When the payloads alone are longer than the limit, the loop runs until no candidate
  is left: every post that held an image id is stripped, and \<open>images\<close> is as before.
\<close>

lemma evict_over_payload:
  assumes "STORAGE_LIMIT < payload_total (images d)"
  shows "posts (evict d) = map (\<lambda>p. if truthy (imageId p) then stripped p else p) (posts d)"
    and "STORAGE_LIMIT < serialized_length (evict d)"
proof -
  have "payload_total (images (evict d)) \<le> serialized_length (evict d)"
    by (rule payload_total_le_serialized)
  with assms show over: "STORAGE_LIMIT < serialized_length (evict d)"
    by (simp add: evict_images)
  with evict_exit [of d] have "candidates (evict d) = []" by simp
  then have nt: "list_all (\<lambda>p. \<not> truthy (imageId p)) (posts (evict d))"
    by (simp add: candidates_empty_iff)
  note ep = evict_posts [of d]
  show "posts (evict d) = map (\<lambda>p. if truthy (imageId p) then stripped p else p) (posts d)"
  proof (rule nth_equalityI)
    show "length (posts (evict d)) = length (map (\<lambda>p. if truthy (imageId p) then stripped p else p) (posts d))"
      using ep by simp
  next
    fix j assume "j < length (posts (evict d))"
    then have j: "j < length (posts d)" and j': "j < length (posts (evict d))"
      using ep by simp_all
    from nt j' have n: "\<not> truthy (imageId (posts (evict d) ! j))"
      by (simp add: list_all_length)
    from ep j have "posts (evict d) ! j = posts d ! j \<or>
      (truthy (imageId (posts d ! j)) \<and> posts (evict d) ! j = stripped (posts d ! j))"
      by blast
    with n show "posts (evict d) ! j = map (\<lambda>p. if truthy (imageId p) then stripped p else p) (posts d) ! j"
      using j by auto
  qed
qed

definition scenario_world :: world where
  "scenario_world = \<lparr>data = scenario, stored = None\<rparr>"

lemma scenario_evicted_posts: "posts (evict scenario) = [stripped post_A, stripped post_B]"
proof -
  have "STORAGE_LIMIT < payload_total (images scenario)"
    by (simp add: scenario_payload_total STORAGE_LIMIT_def)
  then have "posts (evict scenario)
      = map (\<lambda>p. if truthy (imageId p) then stripped p else p) (posts scenario)"
    by (rule evict_over_payload)
  also have "\<dots> = [stripped post_A, stripped post_B]"
    by (simp add: scenario_def) (simp add: post_A_def post_B_def image_X_def image_Y_def)
  finally show ?thesis .
qed

theorem persistData_within_limit_or_unevictable_witness:
  "list_all (\<lambda>p. \<not> truthy (imageId p)) (posts (data (persistData scenario_world))) \<and>
   stored (persistData scenario_world) = Some (data (persistData scenario_world)) \<and>
   STORAGE_LIMIT < serialized_length (data (persistData scenario_world)) \<and>
   candidates (data (persistData scenario_world)) = []"
proof -
  note th = persistData_within_limit_or_unevictable [of scenario_world]
  have "STORAGE_LIMIT < payload_total (images scenario)"
    by (simp add: scenario_payload_total STORAGE_LIMIT_def)
  then have "STORAGE_LIMIT < serialized_length (evict scenario)"
    by (rule evict_over_payload)
  then have over: "STORAGE_LIMIT < serialized_length (data (persistData scenario_world))"
    by (simp add: data_persistData scenario_world_def)
  with th show ?thesis by auto
qed

text \<open>
  C3 as stated fails on \<open>blank_id_scenario\<close>: when \<open>persistData\<close> has run, the
  document is over the limit and post A still has an \<open>imageId\<close> that is not
  \<open>null\<close>, the empty string.
\<close>

definition blank_id_world :: world where
  "blank_id_world = \<lparr>data = blank_id_scenario, stored = None\<rparr>"

theorem persistData_empty_id_counterexample:
  "STORAGE_LIMIT < serialized_length (data (persistData blank_id_world)) \<and>
   map imageId (posts (data (persistData blank_id_world))) = [Some '''', None] \<and>
   stored (persistData blank_id_world) = Some (data (persistData blank_id_world))"
proof -
  have dw: "data blank_id_world = blank_id_scenario"
    by (simp add: blank_id_world_def)
  have big: "STORAGE_LIMIT < payload_total (images blank_id_scenario)"
    by (simp add: blank_id_payload_total STORAGE_LIMIT_def)
  then have over: "STORAGE_LIMIT < serialized_length (evict blank_id_scenario)"
    by (rule evict_over_payload)
  from big have "posts (evict blank_id_scenario)
      = map (\<lambda>p. if truthy (imageId p) then stripped p else p) (posts blank_id_scenario)"
    by (rule evict_over_payload)
  also have "\<dots> = [post_A_blank, stripped post_B]"
    by (simp add: blank_id_scenario_def) (simp add: post_A_blank_def post_B_def image_Y_def)
  finally have "map imageId (posts (evict blank_id_scenario)) = [Some '''', None]"
    by (simp add: post_A_blank_def stripped_def)
  with over show ?thesis
    by (simp add: data_persistData stored_persistData dw)
qed

text \<open>
  Image ids are minted as \<open>img-<time>-<suffix>\<close>. In a document where no \<open>imageId\<close>
  is the empty string, truthy and non-null are the same, and the loop keeps it so.
\<close>

definition image_ids_nonempty :: "app_data \<Rightarrow> bool" where
  "image_ids_nonempty d = list_all (\<lambda>p. imageId p \<noteq> Some []) (posts d)"

lemma truthy_iff_nonnull: "v \<noteq> Some [] \<Longrightarrow> truthy v \<longleftrightarrow> v \<noteq> None"
  by (cases v) simp_all

lemma evict_ids_nonempty:
  assumes "image_ids_nonempty d"
  shows "image_ids_nonempty (evict d)"
proof -
  have "imageId (posts (evict d) ! j) \<noteq> Some []" if "j < length (posts (evict d))" for j
  proof -
    from that have j: "j < length (posts d)"
      using evict_posts [of d] by simp
    with assms have "imageId (posts d ! j) \<noteq> Some []"
      by (simp add: image_ids_nonempty_def list_all_length)
    moreover have "imageId (stripped (posts d ! j)) \<noteq> Some []"
      by (simp add: stripped_def)
    ultimately show ?thesis
      using evict_posts [of d] j by auto
  qed
  then show ?thesis
    by (simp add: image_ids_nonempty_def list_all_length)
qed

lemma evict_budget:
  assumes "image_ids_nonempty d"
  shows "serialized_length (evict d) \<le> STORAGE_LIMIT \<or>
         list_all (\<lambda>p. imageId p = None) (posts (evict d))"
proof (cases "serialized_length (evict d) \<le> STORAGE_LIMIT")
  case True
  then show ?thesis by simp
next
  case False
  with evict_exit [of d] have "candidates (evict d) = []" by simp
  then have nt: "list_all (\<lambda>p. \<not> truthy (imageId p)) (posts (evict d))"
    by (simp add: candidates_empty_iff)
  from evict_ids_nonempty [OF assms]
  have ne: "list_all (\<lambda>p. imageId p \<noteq> Some []) (posts (evict d))"
    by (simp add: image_ids_nonempty_def)
  have "imageId p = None" if "p \<in> set (posts (evict d))" for p
  proof -
    from that nt ne have "\<not> truthy (imageId p)" and "imageId p \<noteq> Some []"
      by (simp_all add: list_all_iff)
    then show ?thesis by (simp add: truthy_iff_nonnull)
  qed
  then show ?thesis by (simp add: list_all_iff)
qed

text \<open>
  C1, on the code. With the document \<open>scenario\<close> in memory, \<open>persistData\<close> leaves
  the payload of X in \<open>images\<close>, sets \<open>imageId\<close> of post B to \<open>null\<close> and
  \<open>imageRemoved\<close> of post B to \<open>true\<close> as it does for post A, and ends with a
  document that is still over the limit.
\<close>

theorem scenario_persistData_keeps_payload_and_strips_B:
  "map_of (images (data (persistData scenario_world))) image_X = Some payload_X \<and>
   map_of (images (data (persistData scenario_world))) image_Y = Some payload_Y \<and>
   map imageId (posts (data (persistData scenario_world))) = [None, None] \<and>
   map imageRemoved (posts (data (persistData scenario_world))) = [Some True, Some True] \<and>
   STORAGE_LIMIT < serialized_length (data (persistData scenario_world))"
proof -
  have d: "data (persistData scenario_world) = evict scenario"
    by (simp add: data_persistData scenario_world_def)
  have "STORAGE_LIMIT < payload_total (images scenario)"
    by (simp add: scenario_payload_total STORAGE_LIMIT_def)
  then have over: "STORAGE_LIMIT < serialized_length (evict scenario)"
    by (rule evict_over_payload)
  have im: "images (evict scenario) = [(image_X, payload_X), (image_Y, payload_Y)]"
    by (simp add: evict_images scenario_def)
  have ne: "image_X \<noteq> image_Y"
    by (simp add: image_X_def image_Y_def)
  show ?thesis
    using over ne by (simp add: d im scenario_evicted_posts stripped_def)
qed

text \<open>
  A document with one post, whose image Z has a payload of 6 MB, and no reply.
\<close>

definition payload_Z :: string where
  "payload_Z = replicate (6 * 1024 * 1024) (CHR ''z'')"

definition image_Z :: string where
  "image_Z = ''img-1700000120000-e5f6''"

definition post_Z :: post where
  "post_Z =
     \<lparr>entry_id = 1,
      texts = [\<lparr>content = ''large'', language = ''ja'', pronunciation = Some ''''\<rparr>],
      tags = [], createdAt = 1700000120000, updatedAt = 1700000120000,
      imageId = Some image_Z, imageRemoved = Some False, isDeleted = False,
      liked = False, likedAt = None, repostOf = None\<rparr>"

definition single_image_world :: world where
  "single_image_world =
     \<lparr>data = \<lparr>version = 1, posts = [post_Z], replies = [], images = [(image_Z, payload_Z)],
              lastId = 1\<rparr>,
      stored = None\<rparr>"

lemma length_payload_Z: "length payload_Z = 6291456"
  by (simp add: payload_Z_def)

text \<open>
  C2, on the code. \<open>persistData\<close> strips the image of the only post; afterwards no
  post and no reply holds the id of Z, and the payload of Z is still in \<open>images\<close>.
\<close>

theorem single_image_persistData_leaves_orphan:
  "map_of (images (data (persistData single_image_world))) image_Z = Some payload_Z \<and>
   map imageId (posts (data (persistData single_image_world))) = [None] \<and>
   replies (data (persistData single_image_world)) = []"
proof -
  let ?d = "data single_image_world"
  have d: "data (persistData single_image_world) = evict ?d"
    by (simp add: data_persistData)
  have "STORAGE_LIMIT < payload_total (images ?d)"
    by (simp add: single_image_world_def payload_total_def length_payload_Z STORAGE_LIMIT_def)
  then have "posts (evict ?d) = map (\<lambda>p. if truthy (imageId p) then stripped p else p) (posts ?d)"
    by (rule evict_over_payload)
  also have "\<dots> = [stripped post_Z]"
    by (simp add: single_image_world_def) (simp add: post_Z_def image_Z_def)
  finally have p: "posts (evict ?d) = [stripped post_Z]" .
  have im: "images (evict ?d) = [(image_Z, payload_Z)]"
    by (simp add: evict_images single_image_world_def)
  have r: "replies (evict ?d) = []"
    by (simp add: evict_replies single_image_world_def)
  show ?thesis
    by (simp add: d im p r stripped_def)
qed

section \<open>Tag extraction\<close>

text \<open>
  The character classes of the pattern \<open>/#([\p{L}\p{N}_-]+)/gu\<close> on the code units
  U+0000 to U+00FF: the letters are A-Z, a-z, U+00AA, U+00B5, U+00BA, U+00C0-U+00D6,
  U+00D8-U+00F6 and U+00F8-U+00FF; the numbers are 0-9, U+00B2, U+00B3, U+00B9 and
  U+00BC-U+00BE.
\<close>

definition is_letter :: "char \<Rightarrow> bool" where
  "is_letter c =
     (let n = (of_char c :: nat) in
      (65 \<le> n \<and> n \<le> 90) \<or> (97 \<le> n \<and> n \<le> 122) \<or> n = 170 \<or> n = 181 \<or> n = 186 \<or>
      (192 \<le> n \<and> n \<le> 214) \<or> (216 \<le> n \<and> n \<le> 246) \<or> (248 \<le> n \<and> n \<le> 255))"

definition is_number :: "char \<Rightarrow> bool" where
  "is_number c =
     (let n = (of_char c :: nat) in
      (48 \<le> n \<and> n \<le> 57) \<or> n = 178 \<or> n = 179 \<or> n = 185 \<or> (188 \<le> n \<and> n \<le> 190))"

definition tag_char :: "char \<Rightarrow> bool" where
  "tag_char c = (is_letter c \<or> is_number c \<or> c = CHR ''_'' \<or> c = CHR ''-'')"

text \<open>
  A match of the pattern that starts at the head of \<open>s\<close>: \<open>#\<close> and the longest run
  of class characters after it, which must not be empty. The result is the group
  \<open>m[1]\<close>.
\<close>

definition match_at :: "string \<Rightarrow> string option" where
  "match_at s =
     (case s of
        [] \<Rightarrow> None
      | c # cs \<Rightarrow>
          if c = CHR ''#'' \<and> takeWhile tag_char cs \<noteq> [] then Some (takeWhile tag_char cs)
          else None)"

text \<open>
  \<open>regex.exec(s)\<close> of a global pattern whose \<open>lastIndex\<close> is \<open>i\<close>: it fails when
  \<open>i\<close> is past the end, tries each index from \<open>i\<close> on, and on a match returns the
  group with the new \<open>lastIndex\<close>, the end of the match. On failure (\<open>None\<close>)
  \<open>lastIndex\<close> is back to 0.
\<close>

function regex_exec :: "string \<Rightarrow> nat \<Rightarrow> (string \<times> nat) option" where
  "regex_exec s i =
     (if length s < i then None
      else
        (case match_at (drop i s) of
           Some tok \<Rightarrow> Some (tok, i + 1 + length tok)
         | None \<Rightarrow> regex_exec s (Suc i)))"
  by pat_completeness auto
termination
  by (relation "measure (\<lambda>(s, i). Suc (length s) - i)") auto

declare regex_exec.simps [simp del]

lemma match_at_length:
  assumes "match_at r = Some tok"
  shows "tok \<noteq> [] \<and> Suc (length tok) \<le> length r"
proof (cases r)
  case Nil
  with assms show ?thesis by (simp add: match_at_def)
next
  case (Cons c cs)
  with assms have "tok = takeWhile tag_char cs" and "tok \<noteq> []"
    by (auto simp: match_at_def split: if_splits)
  moreover have "length (takeWhile tag_char cs) \<le> length cs"
    by (rule length_takeWhile_le)
  ultimately show ?thesis using Cons by simp
qed

lemma regex_exec_advances:
  "regex_exec s i = Some (tok, j) \<Longrightarrow> i < j \<and> j \<le> length s"
proof (induction s i rule: regex_exec.induct)
  case (1 s i)
  show ?case
  proof (cases "length s < i")
    case True
    with "1.prems" show ?thesis by (simp add: regex_exec.simps [of s i])
  next
    case inside: False
    show ?thesis
    proof (cases "match_at (drop i s)")
      case None
      with inside "1.prems" have "regex_exec s (Suc i) = Some (tok, j)"
        by (simp add: regex_exec.simps [of s i])
      with "1.IH" [OF inside None] show ?thesis by simp
    next
      case (Some t)
      with inside "1.prems" have "t = tok" and "j = i + 1 + length tok"
        by (auto simp: regex_exec.simps [of s i])
      moreover from match_at_length [OF Some] have "Suc (length t) \<le> length s - i"
        by simp
      ultimately show ?thesis using inside by simp
    qed
  qed
qed

text \<open>
  \<open>tagSet.add(x)\<close> on a \<open>Set\<close>, which keeps its members in the order of their first
  insertion, and the loop \<open>while ((m = regex.exec(t.content))) tagSet.add(m[1])\<close>.
\<close>

definition set_add :: "'a \<Rightarrow> 'a list \<Rightarrow> 'a list" where
  "set_add x xs = (if x \<in> set xs then xs else xs @ [x])"

function exec_loop :: "string \<Rightarrow> nat \<Rightarrow> string list \<Rightarrow> string list" where
  "exec_loop s i tagSet =
     (case regex_exec s i of
        None \<Rightarrow> tagSet
      | Some (tok, j) \<Rightarrow> exec_loop s j (set_add tok tagSet))"
  by pat_completeness auto
termination
proof (relation "measure (\<lambda>(s, i, tagSet). Suc (length s) - i)")
  show "wf (measure (\<lambda>(s, i, tagSet). Suc (length s) - i))" by simp
next
  fix s i and tagSet :: "string list" and m tok j
  assume "regex_exec s i = Some m" and "(tok, j) = m"
  then have "i < j \<and> j \<le> length s"
    using regex_exec_advances [of s i tok j] by simp
  then show "((s, j, set_add tok tagSet), (s, i, tagSet)) \<in> measure (\<lambda>(s, i, tagSet). Suc (length s) - i)"
    by auto
qed

declare exec_loop.simps [simp del]

text \<open>\<open>extractTags(texts)\<close>; \<open>Array.from(tagSet)\<close> lists the set in insertion order.\<close>

definition extractTags :: "text_variant list \<Rightarrow> string list" where
  "extractTags ts = foldl (\<lambda>tagSet t. exec_loop (content t) 0 tagSet) [] ts"

subsection \<open>The rule in the words of the specification\<close>

text \<open>
  The tokens of a string, left to right: at each \<open>#\<close> that is followed by at least one
  class character, the longest run of class characters after it.
\<close>

function tag_tokens :: "string \<Rightarrow> string list" where
  "tag_tokens [] = []"
| "tag_tokens (c # cs) =
     (if c = CHR ''#'' \<and> takeWhile tag_char cs \<noteq> []
      then takeWhile tag_char cs # tag_tokens (dropWhile tag_char cs)
      else tag_tokens cs)"
  by pat_completeness auto
termination
proof (relation "measure length")
  show "wf (measure length)" by simp
next
  fix c :: char and cs :: string
  have "length (dropWhile tag_char cs) \<le> length cs"
    by (rule length_dropWhile_le)
  then show "(dropWhile tag_char cs, c # cs) \<in> measure length" by simp
next
  fix c :: char and cs :: string
  show "(cs, c # cs) \<in> measure length" by simp
qed

text \<open>A list without its repetitions, each member at the place of its first occurrence.\<close>

fun first_occurrences :: "'a list \<Rightarrow> 'a list" where
  "first_occurrences [] = []"
| "first_occurrences (x # xs) = x # first_occurrences (removeAll x xs)"

definition spec_tags :: "text_variant list \<Rightarrow> string list" where
  "spec_tags ts = first_occurrences (concat (map (\<lambda>t. tag_tokens (content t)) ts))"

subsection \<open>The loop computes the rule\<close>

lemma tag_tokens_drop_Suc:
  assumes "i < length s" and "match_at (drop i s) = None"
  shows "tag_tokens (drop i s) = tag_tokens (drop (Suc i) s)"
proof -
  from assms(1) have "drop i s = s ! i # drop (Suc i) s"
    by (simp add: Cons_nth_drop_Suc)
  with assms(2) show ?thesis
    by (auto simp: match_at_def split: if_splits)
qed

lemma tag_tokens_drop_match:
  assumes "i < length s" and "match_at (drop i s) = Some tok"
  shows "tag_tokens (drop i s) = tok # tag_tokens (drop (i + 1 + length tok) s)"
proof -
  let ?cs = "drop (Suc i) s"
  from assms(1) have d: "drop i s = s ! i # ?cs"
    by (simp add: Cons_nth_drop_Suc)
  with assms(2) have h: "s ! i = CHR ''#''" and t: "takeWhile tag_char ?cs \<noteq> []"
    and tok: "tok = takeWhile tag_char ?cs"
    by (auto simp: match_at_def split: if_splits)
  have "dropWhile tag_char ?cs = drop (length tok) ?cs"
    by (simp add: tok dropWhile_eq_drop)
  also have "\<dots> = drop (i + 1 + length tok) s"
    by (simp add: add.commute)
  finally have "dropWhile tag_char ?cs = drop (i + 1 + length tok) s" .
  with d h t tok show ?thesis by simp
qed

lemma regex_exec_tokens:
  "i \<le> length s \<Longrightarrow>
   (case regex_exec s i of
      None \<Rightarrow> tag_tokens (drop i s) = []
    | Some (tok, j) \<Rightarrow> tag_tokens (drop i s) = tok # tag_tokens (drop j s))"
proof (induction s i rule: regex_exec.induct)
  case (1 s i)
  then have inside: "\<not> length s < i" by simp
  show ?case
  proof (cases "match_at (drop i s)")
    case (Some tok)
    then have "i < length s"
      using match_at_length [OF Some] by (cases "i < length s") auto
    with Some inside show ?thesis
      by (simp add: regex_exec.simps [of s i] tag_tokens_drop_match)
  next
    case None
    show ?thesis
    proof (cases "i < length s")
      case True
      then have "Suc i \<le> length s" by simp
      note IH = "1.IH" [OF inside None this]
      have e: "regex_exec s i = regex_exec s (Suc i)"
        using inside None by (simp add: regex_exec.simps [of s i])
      have t: "tag_tokens (drop i s) = tag_tokens (drop (Suc i) s)"
        by (rule tag_tokens_drop_Suc [OF True None])
      from IH show ?thesis unfolding e t .
    next
      case False
      with inside have "regex_exec s (Suc i) = None" and "drop i s = []"
        by (simp_all add: regex_exec.simps [of s "Suc i"])
      with inside None show ?thesis
        by (simp add: regex_exec.simps [of s i])
    qed
  qed
qed

lemma exec_loop_tokens:
  "i \<le> length s \<Longrightarrow>
   exec_loop s i tagSet = foldl (\<lambda>acc tok. set_add tok acc) tagSet (tag_tokens (drop i s))"
proof (induction s i tagSet rule: exec_loop.induct)
  case (1 s i tagSet)
  show ?case
  proof (cases "regex_exec s i")
    case None
    with regex_exec_tokens [OF "1.prems"] show ?thesis
      by (simp add: exec_loop.simps [of s i])
  next
    case (Some m)
    obtain tok j where m: "m = (tok, j)" by (cases m)
    from regex_exec_advances [of s i tok j] Some m have j: "j \<le> length s" by simp
    from regex_exec_tokens [OF "1.prems"] Some m
    have t: "tag_tokens (drop i s) = tok # tag_tokens (drop j s)" by simp
    from "1.IH" [OF Some m [symmetric] j] Some m t show ?thesis
      by (simp add: exec_loop.simps [of s i])
  qed
qed

lemma set_add_first_occurrences:
  "foldl (\<lambda>acc x. set_add x acc) acc xs
   = acc @ first_occurrences (filter (\<lambda>x. x \<notin> set acc) xs)"
proof (induction xs arbitrary: acc)
  case Nil
  show ?case by simp
next
  case (Cons x xs)
  show ?case
  proof (cases "x \<in> set acc")
    case True
    with Cons.IH [of acc] show ?thesis by (simp add: set_add_def)
  next
    case False
    have "removeAll x (filter (\<lambda>y. y \<notin> set acc) xs)
          = filter (\<lambda>y. y \<notin> set (acc @ [x])) xs"
      by (induction xs) auto
    with False Cons.IH [of "acc @ [x]"] show ?thesis by (simp add: set_add_def)
  qed
qed

lemma foldl_tokens_concat:
  "foldl (\<lambda>tagSet t. foldl (\<lambda>acc tok. set_add tok acc) tagSet (tag_tokens (content t))) acc ts
   = foldl (\<lambda>acc tok. set_add tok acc) acc (concat (map (\<lambda>t. tag_tokens (content t)) ts))"
  by (induction ts arbitrary: acc) simp_all

lemma extractTags_spec_tags: "extractTags ts = spec_tags ts"
proof -
  have "extractTags ts
        = foldl (\<lambda>tagSet t. foldl (\<lambda>acc tok. set_add tok acc) tagSet (tag_tokens (content t))) [] ts"
    by (simp add: extractTags_def exec_loop_tokens)
  also have "\<dots> = foldl (\<lambda>acc tok. set_add tok acc) [] (concat (map (\<lambda>t. tag_tokens (content t)) ts))"
    by (rule foldl_tokens_concat)
  also have "\<dots> = spec_tags ts"
    by (simp add: set_add_first_occurrences spec_tags_def)
  finally show ?thesis .
qed

lemma distinct_first_occurrences: "distinct (first_occurrences xs)"
  and set_first_occurrences: "set (first_occurrences xs) = set xs"
  by (induction xs rule: first_occurrences.induct) auto

subsection \<open>What a token is\<close>

text \<open>
  An occurrence of the pattern in \<open>s\<close>: \<open>#\<close>, then the non-empty run \<open>tok\<close> of class
  characters, then the end of the string or a character outside the class.
\<close>

definition is_tag_match :: "string \<Rightarrow> string \<Rightarrow> bool" where
  "is_tag_match s tok \<longleftrightarrow>
     tok \<noteq> [] \<and> list_all tag_char tok \<and>
     (\<exists>pre post. s = pre @ CHR ''#'' # tok @ post \<and> (post = [] \<or> \<not> tag_char (hd post)))"

lemma hash_not_tag_char: "\<not> tag_char (CHR ''#'')"
  by (simp add: tag_char_def is_letter_def is_number_def)

lemma takeWhile_run:
  assumes "list_all P tok" and "post = [] \<or> \<not> P (hd post)"
  shows "takeWhile P (tok @ post) = tok" and "dropWhile P (tok @ post) = post"
proof -
  from assms(2) have "takeWhile P post = []" and "dropWhile P post = post"
    by (cases post; simp)+
  with assms(1) show "takeWhile P (tok @ post) = tok" and "dropWhile P (tok @ post) = post"
    by (simp_all add: list_all_iff)
qed

lemma tag_tokens_sound: "tok \<in> set (tag_tokens s) \<Longrightarrow> is_tag_match s tok"
proof (induction s rule: tag_tokens.induct)
  case 1
  then show ?case by simp
next
  case (2 c cs)
  let ?T = "takeWhile tag_char cs" and ?D = "dropWhile tag_char cs"
  show ?case
  proof (cases "c = CHR ''#'' \<and> ?T \<noteq> []")
    case match: True
    with "2.prems" have "tok = ?T \<or> tok \<in> set (tag_tokens ?D)" by auto
    then show ?thesis
    proof
      assume tok: "tok = ?T"
      have "c # cs = [] @ CHR ''#'' # ?T @ ?D" using match by simp
      moreover have "?D = [] \<or> \<not> tag_char (hd ?D)"
        by (cases "?D = []") (simp_all add: hd_dropWhile)
      moreover have "list_all tag_char ?T"
        by (auto simp: list_all_iff dest: set_takeWhileD)
      ultimately show ?thesis
        unfolding is_tag_match_def tok using match by blast
    next
      assume "tok \<in> set (tag_tokens ?D)"
      with "2.IH"(1) match have m: "is_tag_match ?D tok" by simp
      then obtain pre post where "?D = pre @ CHR ''#'' # tok @ post"
        and p: "post = [] \<or> \<not> tag_char (hd post)"
        unfolding is_tag_match_def by blast
      then have "c # cs = (c # ?T @ pre) @ CHR ''#'' # tok @ post"
        using takeWhile_dropWhile_id [of tag_char cs] by simp
      with m p show ?thesis unfolding is_tag_match_def by blast
    qed
  next
    case False
    with "2.prems" have "tok \<in> set (tag_tokens cs)" by auto
    with "2.IH"(2) False have m: "is_tag_match cs tok" by simp
    then obtain pre post where "cs = pre @ CHR ''#'' # tok @ post"
      and p: "post = [] \<or> \<not> tag_char (hd post)"
      unfolding is_tag_match_def by blast
    then have "c # cs = (c # pre) @ CHR ''#'' # tok @ post" by simp
    with m p show ?thesis unfolding is_tag_match_def by blast
  qed
qed

lemma tag_tokens_complete_aux:
  assumes "s = pre @ CHR ''#'' # tok @ post" and "tok \<noteq> []" and "list_all tag_char tok"
    and "post = [] \<or> \<not> tag_char (hd post)"
  shows "tok \<in> set (tag_tokens s)"
  using assms(1)
proof (induction s arbitrary: pre rule: tag_tokens.induct)
  case 1
  then show ?case by simp
next
  case (2 c cs)
  let ?T = "takeWhile tag_char cs" and ?D = "dropWhile tag_char cs"
  show ?case
  proof (cases pre)
    case Nil
    with "2.prems" have c: "c = CHR ''#''" and cs: "cs = tok @ post" by simp_all
    have "?T = tok" unfolding cs using assms(3,4) by (rule takeWhile_run)
    with c assms(2) show ?thesis by simp
  next
    case (Cons p pre')
    with "2.prems" have cs: "cs = pre' @ CHR ''#'' # tok @ post" by simp
    show ?thesis
    proof (cases "c = CHR ''#'' \<and> ?T \<noteq> []")
      case match: True
      have "?D = dropWhile tag_char pre' @ CHR ''#'' # tok @ post"
        unfolding cs using hash_not_tag_char by (simp add: dropWhile_append)
      with "2.IH"(1) match have "tok \<in> set (tag_tokens ?D)" by blast
      with match show ?thesis by simp
    next
      case False
      with "2.IH"(2) cs have "tok \<in> set (tag_tokens cs)" by blast
      with False show ?thesis by auto
    qed
  qed
qed

lemma tag_tokens_iff: "tok \<in> set (tag_tokens s) \<longleftrightarrow> is_tag_match s tok"
proof
  assume "tok \<in> set (tag_tokens s)"
  then show "is_tag_match s tok" by (rule tag_tokens_sound)
next
  assume "is_tag_match s tok"
  then show "tok \<in> set (tag_tokens s)"
    unfolding is_tag_match_def using tag_tokens_complete_aux by blast
qed

declare tag_tokens.simps [simp del]

lemma example_tokens:
  "tag_tokens ''hello #foo world #bar #foo'' = [''foo'', ''bar'', ''foo'']"
  by code_simp

text \<open>
  C6. \<open>extractTags\<close> is a function of the texts. Its result is the list of tokens of
  the contents, in the order of the texts and from left to right in each, without
  repetitions, each token at the place of its first occurrence; a token is a non-empty
  run of letters, digits, underscores and hyphens that follows a \<open>#\<close> and is followed
  by no further such character, copied as it stands. The content
  \<open>hello #foo world #bar #foo\<close> gives \<open>foo\<close>, \<open>bar\<close>.
\<close>

theorem extractTags_rule:
  "extractTags ts = first_occurrences (concat (map (\<lambda>t. tag_tokens (content t)) ts)) \<and>
   distinct (extractTags ts) \<and>
   (\<forall>s tok. tok \<in> set (tag_tokens s) \<longleftrightarrow> is_tag_match s tok) \<and>
   extractTags [\<lparr>content = ''hello #foo world #bar #foo'', language = l, pronunciation = pr\<rparr>]
     = [''foo'', ''bar'']"
proof -
  have "extractTags [\<lparr>content = ''hello #foo world #bar #foo'', language = l, pronunciation = pr\<rparr>]
        = first_occurrences [''foo'', ''bar'', ''foo'']"
    by (simp add: extractTags_spec_tags spec_tags_def example_tokens)
  also have "\<dots> = [''foo'', ''bar'']" by simp
  finally show ?thesis
    using extractTags_spec_tags [of ts]
    by (simp add: spec_tags_def tag_tokens_iff distinct_first_occurrences)
qed

section \<open>Deleting a post\<close>

text \<open>
  \<open>posts.find((p) => p.id === id)\<close> yields the first post with that id, and the
  assignments to its properties change that object in the list.
\<close>

fun update_first :: "('a \<Rightarrow> bool) \<Rightarrow> ('a \<Rightarrow> 'a) \<Rightarrow> 'a list \<Rightarrow> 'a list" where
  "update_first P f [] = []"
| "update_first P f (x # xs) = (if P x then f x # xs else x # update_first P f xs)"

definition soft_deleted :: "post \<Rightarrow> post" where
  "soft_deleted p =
     p\<lparr>isDeleted := True,
       texts := [\<lparr>content = '''', language = ''ja'', pronunciation = None\<rparr>]\<rparr>"

text \<open>
  \<open>deletePost(id)\<close>; \<open>confirmed\<close> is the answer of \<open>window.confirm\<close>. With a reply
  to the post, the post is marked and its texts are replaced; without one,
  \<open>removeImageIfUnused(post.imageId)\<close> runs and then the post is filtered out of
  \<open>posts\<close>. \<open>persistData\<close> follows in both cases.
\<close>

definition deletePost :: "nat \<Rightarrow> bool \<Rightarrow> world \<Rightarrow> world" where
  "deletePost i confirmed w =
     (case find (\<lambda>p. entry_id p = i) (posts (data w)) of
        None \<Rightarrow> w
      | Some post \<Rightarrow>
          if \<not> confirmed then w
          else
            let d = data w;
                hasReplies = list_ex (\<lambda>r. postId r = i) (replies d);
                d' = (if hasReplies
                      then d\<lparr>posts := update_first (\<lambda>p. entry_id p = i) soft_deleted (posts d)\<rparr>
                      else
                        (let d1 = removeImageIfUnused (imageId post) d
                         in d1\<lparr>posts := filter (\<lambda>p. entry_id p \<noteq> i) (posts d1)\<rparr>))
            in persistData (w\<lparr>data := d'\<rparr>))"

lemmas length_defs =
  serialized_length_def items_length_def member_length_def string_length_def escape_length_def
  images_length_def post_length_def reply_length_def text_length_def optional_member_def
  nullable_length_def bool_length_def STORAGE_LIMIT_def

lemma evict_within_limit: "serialized_length d \<le> STORAGE_LIMIT \<Longrightarrow> evict d = d"
  by (simp add: evict.simps [of d])

text \<open>
  A post with an image and no reply: the only holder of the image \<open>img-1700000000000-k9x2\<close>.
\<close>

definition lone_post :: post where
  "lone_post =
     \<lparr>entry_id = 1,
      texts = [\<lparr>content = ''sunset'', language = ''ja'', pronunciation = Some ''''\<rparr>],
      tags = [], createdAt = 1700000000000, updatedAt = 1700000000000,
      imageId = Some ''img-1700000000000-k9x2'', imageRemoved = Some False, isDeleted = False,
      liked = False, likedAt = None, repostOf = None\<rparr>"

definition lone_post_world :: world where
  "lone_post_world =
     \<lparr>data = \<lparr>version = 1, posts = [lone_post], replies = [],
              images = [(''img-1700000000000-k9x2'', ''data:image/png;base64,iVBORw0KGgo='')],
              lastId = 1\<rparr>,
      stored = None\<rparr>"

text \<open>
  C7, on the code. \<open>deletePost(1)\<close>, confirmed, on \<open>lone_post_world\<close>: the post has
  no reply and is removed from \<open>posts\<close>; no post and no reply is left to hold the
  image, and its payload is still in \<open>images\<close>, in memory and in the slot.
\<close>

theorem deletePost_keeps_unreferenced_image:
  "posts (data (deletePost 1 True lone_post_world)) = [] \<and>
   replies (data (deletePost 1 True lone_post_world)) = [] \<and>
   images (data (deletePost 1 True lone_post_world))
     = [(''img-1700000000000-k9x2'', ''data:image/png;base64,iVBORw0KGgo='')] \<and>
   stored (deletePost 1 True lone_post_world) = Some (data (deletePost 1 True lone_post_world))"
proof -
  let ?d = "\<lparr>version = 1, posts = [], replies = [],
             images = [(''img-1700000000000-k9x2'', ''data:image/png;base64,iVBORw0KGgo='')],
             lastId = 1\<rparr> :: app_data"
  have "serialized_length ?d \<le> STORAGE_LIMIT" by (simp add: length_defs)
  then have e: "evict ?d = ?d" by (rule evict_within_limit)
  have dp: "deletePost 1 True lone_post_world = persistData \<lparr>data = ?d, stored = None\<rparr>"
    by (simp add: deletePost_def lone_post_world_def lone_post_def removeImageIfUnused_def)
  have pd: "data (persistData \<lparr>data = ?d, stored = None\<rparr>) = ?d"
    and st: "stored (persistData \<lparr>data = ?d, stored = None\<rparr>) = Some ?d"
    unfolding data_persistData stored_persistData world.select_convs e by (rule refl)+
  show ?thesis
    unfolding dp pd st by simp
qed

text \<open>
  A post whose text carries the tag \<open>foo\<close>, with one reply.
\<close>

definition tagged_post :: post where
  "tagged_post =
     \<lparr>entry_id = 1,
      texts = [\<lparr>content = ''hi #foo'', language = ''en-US'', pronunciation = Some ''''\<rparr>],
      tags = [''foo''], createdAt = 1700000000000, updatedAt = 1700000000000,
      imageId = None, imageRemoved = Some False, isDeleted = False,
      liked = False, likedAt = None, repostOf = None\<rparr>"

definition its_reply :: reply where
  "its_reply =
     \<lparr>entry_id = 2,
      texts = [\<lparr>content = ''nice'', language = ''en-US'', pronunciation = Some ''''\<rparr>],
      tags = [], createdAt = 1700000001000, updatedAt = 1700000001000,
      imageId = None, imageRemoved = None, isDeleted = False, postId = 1\<rparr>"

definition tagged_world :: world where
  "tagged_world =
     \<lparr>data = \<lparr>version = 1, posts = [tagged_post], replies = [its_reply], images = [],
              lastId = 2\<rparr>,
      stored = None\<rparr>"

text \<open>
  C5, on the code. \<open>deletePost(1)\<close>, confirmed, on \<open>tagged_world\<close>: the post has a
  reply and is soft-deleted. Its texts are the one empty placeholder, from which
  \<open>extractTags\<close> extracts no tag, and its \<open>tags\<close> still hold \<open>foo\<close>.
\<close>

theorem deletePost_soft_keeps_tags:
  "map isDeleted (posts (data (deletePost 1 True tagged_world))) = [True] \<and>
   map texts (posts (data (deletePost 1 True tagged_world)))
     = [[\<lparr>content = '''', language = ''ja'', pronunciation = None\<rparr>]] \<and>
   map tags (posts (data (deletePost 1 True tagged_world))) = [[''foo'']] \<and>
   map (\<lambda>p. extractTags (texts p)) (posts (data (deletePost 1 True tagged_world))) = [[]]"
proof -
  let ?d = "\<lparr>version = 1, posts = [soft_deleted tagged_post], replies = [its_reply], images = [],
             lastId = 2\<rparr> :: app_data"
  have "serialized_length ?d \<le> STORAGE_LIMIT"
    by (simp add: length_defs soft_deleted_def tagged_post_def its_reply_def)
  then have e: "evict ?d = ?d" by (rule evict_within_limit)
  have dp: "deletePost 1 True tagged_world = persistData \<lparr>data = ?d, stored = None\<rparr>"
    by (simp add: deletePost_def tagged_world_def tagged_post_def its_reply_def)
  have pd: "data (persistData \<lparr>data = ?d, stored = None\<rparr>) = ?d"
    unfolding data_persistData world.select_convs e by (rule refl)
  have "extractTags [\<lparr>content = '''', language = ''ja'', pronunciation = None\<rparr>] = []"
    by code_simp
  then show ?thesis
    unfolding dp pd by (simp add: soft_deleted_def tagged_post_def)
qed

lemma deletePost_never_releases: "images (data (deletePost i c w)) = images (data w)"
proof (cases "find (\<lambda>p. entry_id p = i) (posts (data w))")
  case None
  then show ?thesis by (simp add: deletePost_def)
next
  case (Some post)
  then have "post \<in> set (posts (data w))"
    by (auto simp: find_Some_iff)
  then have "removeImageIfUnused (imageId post) (data w) = data w"
    by (rule removeImageIfUnused_held)
  with Some show ?thesis
    by (simp add: deletePost_def Let_def data_persistData evict_images)
qed

text \<open>
  The soft delete, for any document: with a reply to the post, \<open>deletePost\<close> keeps
  the replies and the ids of the posts, and the first post with the id is marked
  deleted with the placeholder as its texts.
\<close>

lemma deletePost_soft:
  assumes "find (\<lambda>p. entry_id p = i) (posts (data w)) = Some post"
    and "list_ex (\<lambda>r. postId r = i) (replies (data w))"
  shows "replies (data (deletePost i True w)) = replies (data w)"
    and "map entry_id (posts (data (deletePost i True w))) = map entry_id (posts (data w))"
    and "map isDeleted (posts (data (deletePost i True w)))
         = map isDeleted (update_first (\<lambda>p. entry_id p = i) soft_deleted (posts (data w)))"
    and "map texts (posts (data (deletePost i True w)))
         = map texts (update_first (\<lambda>p. entry_id p = i) soft_deleted (posts (data w)))"
proof -
  let ?d = "(data w)\<lparr>posts := update_first (\<lambda>p. entry_id p = i) soft_deleted (posts (data w))\<rparr>"
  have d: "data (deletePost i True w) = evict ?d"
    using assms by (simp add: deletePost_def Let_def data_persistData)
  have ids: "map entry_id (update_first P soft_deleted ps) = map entry_id ps" for P ps
    by (induction ps) (simp_all add: soft_deleted_def)
  have f: "map entry_id (posts (evict ?d)) = map entry_id (posts ?d)"
    by (rule evict_map_posts) (simp add: stripped_def)
  show "replies (data (deletePost i True w)) = replies (data w)"
    by (simp add: d evict_replies)
  show "map entry_id (posts (data (deletePost i True w))) = map entry_id (posts (data w))"
    by (simp add: d f ids)
  show "map isDeleted (posts (data (deletePost i True w)))
         = map isDeleted (update_first (\<lambda>p. entry_id p = i) soft_deleted (posts (data w)))"
    by (simp add: d evict_isDeleted)
  show "map texts (posts (data (deletePost i True w)))
         = map texts (update_first (\<lambda>p. entry_id p = i) soft_deleted (posts (data w)))"
    by (simp add: d evict_texts)
qed

section \<open>Submitting the form\<close>

text \<open>
  White space as \<open>String.prototype.trim\<close> and \<open>\s\<close> read it, on the code units
  U+0000 to U+00FF: tab, line feed, vertical tab, form feed, carriage return, space
  and the no-break space.
\<close>

definition is_space :: "char \<Rightarrow> bool" where
  "is_space c =
     (let n = (of_char c :: nat) in (9 \<le> n \<and> n \<le> 13) \<or> n = 32 \<or> n = 160)"

definition trim :: "string \<Rightarrow> string" where
  "trim s = rev (dropWhile is_space (rev (dropWhile is_space s)))"

text \<open>
  \<open>ensureImageId(dataUrl)\<close>: the id of the first stored payload equal to \<open>dataUrl\<close>,
  otherwise a new id under which the payload is stored. \<open>newId\<close> is the string
  \<open>img-<Date.now()>-<random suffix>\<close> the call would mint. An assignment to a key the
  object already has replaces the value in place.
\<close>

definition assign :: "string \<Rightarrow> string \<Rightarrow> (string \<times> string) list \<Rightarrow> (string \<times> string) list" where
  "assign k v im =
     (if list_ex (\<lambda>kv. fst kv = k) im then map (\<lambda>kv. if fst kv = k then (k, v) else kv) im
      else im @ [(k, v)])"

definition ensureImageId :: "string \<Rightarrow> string \<Rightarrow> app_data \<Rightarrow> string \<times> app_data" where
  "ensureImageId newId dataUrl d =
     (case find (\<lambda>kv. snd kv = dataUrl) (images d) of
        Some kv \<Rightarrow> (fst kv, d)
      | None \<Rightarrow> (newId, d\<lparr>images := assign newId dataUrl (images d)\<rparr>))"

text \<open>
  The arguments of \<open>buildPostForm\<close>. \<open>targetPost\<close> is a reference to a post or a
  reply of the document (its position stands for the object), or an object that is in
  neither list: the copy \<open>{ ...post, repostOf: post.id }\<close> of a repost.
\<close>

datatype form_mode = Create | Edit | ReplyMode

datatype target_ref = PostRef nat | ReplyRef nat | Detached post

text \<open>
  What the user has entered when the submit button is clicked: for each text block the
  value of the text area, the selected language and the value of the pronunciation
  input; the data URL of a chosen file, if any; whether the image was removed.
\<close>

record form_input =
  blocks :: "(string \<times> string \<times> string) list"
  imageDataUrl :: "string option"
  removeImage :: bool

text \<open>
  What the handler reads from outside: the two successive results of \<open>Date.now()\<close>
  and the id \<open>ensureImageId\<close> mints if it needs one.
\<close>

record environment =
  now_first :: nat
  now_second :: nat
  minted_id :: string

datatype submit_result = Rejected | Accepted

definition target_imageId :: "app_data \<Rightarrow> target_ref \<Rightarrow> string option" where
  "target_imageId d t =
     (case t of PostRef i \<Rightarrow> imageId (posts d ! i) | ReplyRef i \<Rightarrow> imageId (replies d ! i)
      | Detached p \<Rightarrow> imageId p)"

definition target_id :: "app_data \<Rightarrow> target_ref \<Rightarrow> nat" where
  "target_id d t =
     (case t of PostRef i \<Rightarrow> entry_id (posts d ! i) | ReplyRef i \<Rightarrow> entry_id (replies d ! i)
      | Detached p \<Rightarrow> entry_id p)"

definition text_blocks :: "form_input \<Rightarrow> text_variant list" where
  "text_blocks inp =
     map (\<lambda>(c, l, p). \<lparr>content = trim c, language = l, pronunciation = Some (trim p)\<rparr>) (blocks inp)"

text \<open>
  The branch \<open>mode === 'edit' && targetPost\<close>: the assignments to the target, with
  \<open>removeImageIfUnused\<close> where the handler calls it. An object in neither list takes
  the assignments without any effect on the document.
\<close>

definition edit_entry ::
  "text_variant list \<Rightarrow> string list \<Rightarrow> nat \<Rightarrow> 'a entry_scheme \<Rightarrow> 'a entry_scheme" where
  "edit_entry tb tg now e = e\<lparr>texts := tb, tags := tg, updatedAt := now\<rparr>"

definition set_image :: "string option \<Rightarrow> 'a entry_scheme \<Rightarrow> 'a entry_scheme" where
  "set_image iid e = e\<lparr>imageId := iid, imageRemoved := Some False\<rparr>"

definition update_target ::
  "target_ref \<Rightarrow> (post \<Rightarrow> post) \<Rightarrow> (reply \<Rightarrow> reply) \<Rightarrow> app_data \<Rightarrow> app_data" where
  "update_target t f g d =
     (case t of
        PostRef i \<Rightarrow> d\<lparr>posts := (posts d)[i := f (posts d ! i)]\<rparr>
      | ReplyRef i \<Rightarrow> d\<lparr>replies := (replies d)[i := g (replies d ! i)]\<rparr>
      | Detached p \<Rightarrow> d)"

definition edit_target ::
  "target_ref \<Rightarrow> text_variant list \<Rightarrow> string list \<Rightarrow> nat \<Rightarrow> form_input \<Rightarrow>
   string option \<Rightarrow> string option \<Rightarrow> app_data \<Rightarrow> app_data" where
  "edit_target t tb tg now inp originalImageId iid d =
     (let d1 = update_target t (edit_entry tb tg now) (edit_entry tb tg now) d
      in if imageDataUrl inp \<noteq> None then
           (let d2 = update_target t (set_image iid) (set_image iid) d1
            in if truthy originalImageId \<and> originalImageId \<noteq> iid
               then removeImageIfUnused originalImageId d2 else d2)
         else if removeImage inp then
           (let d2 = removeImageIfUnused originalImageId d1
            in update_target t (set_image None) (set_image None) d2)
         else d1)"

text \<open>
  The image step of the handler: \<open>imageId\<close> starts as the target's, becomes the id of
  the chosen file's payload when there is one, and \<open>null\<close> when the image was removed.
  \<open>originalImageId\<close> is \<open>targetPost?.imageId || null\<close>.
\<close>

definition image_step ::
  "target_ref option \<Rightarrow> form_input \<Rightarrow> environment \<Rightarrow> app_data \<Rightarrow> string option \<times> app_data" where
  "image_step targetPost inp env d0 =
     (if truthy (imageDataUrl inp)
      then (let (k, d) = ensureImageId (minted_id env) (the (imageDataUrl inp)) d0 in (Some k, d))
      else if removeImage inp then (None, d0)
      else (case targetPost of None \<Rightarrow> None | Some t \<Rightarrow> target_imageId d0 t, d0))"

definition original_image :: "target_ref option \<Rightarrow> app_data \<Rightarrow> string option" where
  "original_image targetPost d0 =
     (case targetPost of
        None \<Rightarrow> None
      | Some t \<Rightarrow> if truthy (target_imageId d0 t) then target_imageId d0 t else None)"

text \<open>The branches that push a new reply and a new post; \<open>nextId()\<close> is \<open>lastId + 1\<close>.\<close>

definition add_reply ::
  "nat \<Rightarrow> text_variant list \<Rightarrow> string list \<Rightarrow> environment \<Rightarrow> string option \<Rightarrow> app_data \<Rightarrow> app_data" where
  "add_reply parentId tb tg env iid d =
     (let n = lastId d + 1
      in d\<lparr>lastId := n,
           replies := replies d @
             [\<lparr>entry_id = n, texts = tb, tags = tg,
               createdAt = now_first env, updatedAt = now_second env,
               imageId = (if truthy iid then iid else None), imageRemoved = None,
               isDeleted = False, postId = parentId\<rparr>]\<rparr>)"

definition add_post ::
  "nat option \<Rightarrow> text_variant list \<Rightarrow> string list \<Rightarrow> environment \<Rightarrow> string option \<Rightarrow> app_data \<Rightarrow> app_data" where
  "add_post source tb tg env iid d =
     (let n = lastId d + 1
      in d\<lparr>lastId := n,
           posts := posts d @
             [\<lparr>entry_id = n, texts = tb, tags = tg,
               createdAt = now_first env, updatedAt = now_second env,
               imageId = (if truthy iid then iid else None), imageRemoved = Some False,
               isDeleted = False, liked = False, likedAt = None, repostOf = source\<rparr>]\<rparr>)"

text \<open>
  The click handler of the submit button. \<open>parentId\<close> is read in the mode
  \<open>reply\<close> only. The handler returns after the alert when no block has content;
  otherwise it changes the document and calls \<open>persistData\<close>.
\<close>

definition submit ::
  "form_mode \<Rightarrow> target_ref option \<Rightarrow> nat \<Rightarrow> form_input \<Rightarrow> environment \<Rightarrow> world \<Rightarrow>
   submit_result \<times> world" where
  "submit mode targetPost parentId inp env w =
     (let textBlocks = text_blocks inp;
          hasContent = list_ex (\<lambda>t. 0 < length (content t)) textBlocks
      in if \<not> hasContent then (Rejected, w)
         else
           let tgs = extractTags textBlocks;
               d0 = data w;
               (iid, d1) = image_step targetPost inp env d0;
               d2 =
                 (if mode = ReplyMode then add_reply parentId textBlocks tgs env iid d1
                  else if mode = Edit \<and> targetPost \<noteq> None then
                    edit_target (the targetPost) textBlocks tgs (now_first env) inp
                      (original_image targetPost d0) iid d1
                  else add_post (map_option (target_id d0) targetPost) textBlocks tgs env iid d1)
           in (Accepted, persistData (w\<lparr>data := d2\<rparr>)))"

subsection \<open>The document the handler passes to \<open>persistData\<close>\<close>

lemma ensureImageId_frame:
  "posts (snd (ensureImageId k u d)) = posts d"
  "replies (snd (ensureImageId k u d)) = replies d"
  "lastId (snd (ensureImageId k u d)) = lastId d"
  by (simp_all add: ensureImageId_def split: option.splits)

lemma lastId_removeImageIfUnused [simp]: "lastId (removeImageIfUnused iid d) = lastId d"
  by (simp add: removeImageIfUnused_def Let_def)

lemma update_target_frame [simp]: "lastId (update_target t f g d) = lastId d"
  by (simp add: update_target_def split: target_ref.splits)

lemma edit_target_lastId: "lastId (edit_target t tb tg now inp orig iid d) = lastId d"
  by (simp add: edit_target_def Let_def)

lemma edit_target_post:
  assumes "i < length (posts d)"
  shows "texts (posts (edit_target (PostRef i) tb tg now inp orig iid d) ! i) = tb"
    and "tags (posts (edit_target (PostRef i) tb tg now inp orig iid d) ! i) = tg"
    and "updatedAt (posts (edit_target (PostRef i) tb tg now inp orig iid d) ! i) = now"
    and "length (posts (edit_target (PostRef i) tb tg now inp orig iid d)) = length (posts d)"
  using assms
  by (simp_all add: edit_target_def update_target_def edit_entry_def set_image_def Let_def)

lemma edit_target_reply:
  assumes "i < length (replies d)"
  shows "texts (replies (edit_target (ReplyRef i) tb tg now inp orig iid d) ! i) = tb"
    and "tags (replies (edit_target (ReplyRef i) tb tg now inp orig iid d) ! i) = tg"
    and "updatedAt (replies (edit_target (ReplyRef i) tb tg now inp orig iid d) ! i) = now"
  using assms
  by (simp_all add: edit_target_def update_target_def edit_entry_def set_image_def Let_def)

lemma image_step_frame:
  "posts (snd (image_step tp inp env d)) = posts d"
  "replies (snd (image_step tp inp env d)) = replies d"
  "lastId (snd (image_step tp inp env d)) = lastId d"
  by (simp_all add: image_step_def ensureImageId_frame case_prod_beta)

lemma hasContent_blocks:
  "list_ex (\<lambda>t. content t \<noteq> []) (text_blocks inp)
   \<longleftrightarrow> list_ex (\<lambda>b. trim (fst b) \<noteq> []) (blocks inp)"
  by (simp add: text_blocks_def list_ex_iff case_prod_beta)

text \<open>
  C9. When no text block has content after trimming, the handler rejects the
  submission and the world (the document and the slot) is as before. When some block
  has content, the submission is accepted, the changed document is in the slot, and:
  a reply or a post is pushed with the next id, the trimmed blocks as its texts and
  their tags; an edited post or reply holds the trimmed blocks as its texts, their
  tags, and the time of the edit.
\<close>

theorem submit_validation:
  "(\<not> list_ex (\<lambda>b. trim (fst b) \<noteq> []) (blocks inp) \<longrightarrow>
      submit mode targetPost parentId inp env w = (Rejected, w)) \<and>
   (list_ex (\<lambda>b. trim (fst b) \<noteq> []) (blocks inp) \<longrightarrow>
      fst (submit mode targetPost parentId inp env w) = Accepted \<and>
      stored (snd (submit mode targetPost parentId inp env w))
        = Some (data (snd (submit mode targetPost parentId inp env w))) \<and>
      (mode = ReplyMode \<longrightarrow>
         lastId (data (snd (submit mode targetPost parentId inp env w))) = lastId (data w) + 1 \<and>
         map texts (replies (data (snd (submit mode targetPost parentId inp env w))))
           = map texts (replies (data w)) @ [text_blocks inp] \<and>
         map tags (replies (data (snd (submit mode targetPost parentId inp env w))))
           = map tags (replies (data w)) @ [extractTags (text_blocks inp)]) \<and>
      (mode = Create \<longrightarrow>
         lastId (data (snd (submit mode targetPost parentId inp env w))) = lastId (data w) + 1 \<and>
         map texts (posts (data (snd (submit mode targetPost parentId inp env w))))
           = map texts (posts (data w)) @ [text_blocks inp] \<and>
         map tags (posts (data (snd (submit mode targetPost parentId inp env w))))
           = map tags (posts (data w)) @ [extractTags (text_blocks inp)]) \<and>
      (\<forall>i. mode = Edit \<and> targetPost = Some (PostRef i) \<and> i < length (posts (data w)) \<longrightarrow>
         texts (posts (data (snd (submit mode targetPost parentId inp env w))) ! i) = text_blocks inp \<and>
         tags (posts (data (snd (submit mode targetPost parentId inp env w))) ! i)
           = extractTags (text_blocks inp) \<and>
         updatedAt (posts (data (snd (submit mode targetPost parentId inp env w))) ! i)
           = now_first env) \<and>
      (\<forall>i. mode = Edit \<and> targetPost = Some (ReplyRef i) \<and> i < length (replies (data w)) \<longrightarrow>
         texts (replies (data (snd (submit mode targetPost parentId inp env w))) ! i) = text_blocks inp \<and>
         tags (replies (data (snd (submit mode targetPost parentId inp env w))) ! i)
           = extractTags (text_blocks inp) \<and>
         updatedAt (replies (data (snd (submit mode targetPost parentId inp env w))) ! i)
           = now_first env))"
proof (rule conjI; rule impI)
  assume "\<not> list_ex (\<lambda>b. trim (fst b) \<noteq> []) (blocks inp)"
  then show "submit mode targetPost parentId inp env w = (Rejected, w)"
    by (simp add: submit_def Let_def hasContent_blocks)
next
  let ?r = "submit mode targetPost parentId inp env w"
  let ?tb = "text_blocks inp" and ?tg = "extractTags (text_blocks inp)"
  let ?st = "image_step targetPost inp env (data w)"
  assume has: "list_ex (\<lambda>b. trim (fst b) \<noteq> []) (blocks inp)"
  define d2 where "d2 =
     (if mode = ReplyMode then add_reply parentId ?tb ?tg env (fst ?st) (snd ?st)
      else if mode = Edit \<and> targetPost \<noteq> None then
        edit_target (the targetPost) ?tb ?tg (now_first env) inp
          (original_image targetPost (data w)) (fst ?st) (snd ?st)
      else add_post (map_option (target_id (data w)) targetPost) ?tb ?tg env (fst ?st) (snd ?st))"
  have r: "?r = (Accepted, persistData (w\<lparr>data := d2\<rparr>))"
    using has by (simp add: submit_def Let_def hasContent_blocks case_prod_beta d2_def)
  have dr: "data (snd ?r) = evict d2"
    by (simp add: r data_persistData)
  have c1: "fst ?r = Accepted" by (simp add: r)
  have c2: "stored (snd ?r) = Some (data (snd ?r))"
    by (simp add: r data_persistData stored_persistData)
  have c3: "mode = ReplyMode \<longrightarrow>
         lastId (data (snd ?r)) = lastId (data w) + 1 \<and>
         map texts (replies (data (snd ?r))) = map texts (replies (data w)) @ [?tb] \<and>
         map tags (replies (data (snd ?r))) = map tags (replies (data w)) @ [?tg]"
    unfolding dr
    by (simp add: evict_lastId evict_replies d2_def add_reply_def Let_def image_step_frame)
  have c4: "mode = Create \<longrightarrow>
         lastId (data (snd ?r)) = lastId (data w) + 1 \<and>
         map texts (posts (data (snd ?r))) = map texts (posts (data w)) @ [?tb] \<and>
         map tags (posts (data (snd ?r))) = map tags (posts (data w)) @ [?tg]"
    unfolding dr
    by (simp add: evict_lastId evict_texts evict_tags d2_def add_post_def Let_def image_step_frame)
  have c5: "\<forall>i. mode = Edit \<and> targetPost = Some (PostRef i) \<and> i < length (posts (data w)) \<longrightarrow>
         texts (posts (data (snd ?r)) ! i) = ?tb \<and>
         tags (posts (data (snd ?r)) ! i) = ?tg \<and>
         updatedAt (posts (data (snd ?r)) ! i) = now_first env"
  proof (intro allI impI)
    fix i
    assume a: "mode = Edit \<and> targetPost = Some (PostRef i) \<and> i < length (posts (data w))"
    then have d2: "d2 = edit_target (PostRef i) ?tb ?tg (now_first env) inp
          (original_image targetPost (data w)) (fst ?st) (snd ?st)"
      by (simp add: d2_def)
    from a have i: "i < length (posts (snd ?st))"
      by (simp add: image_step_frame)
    then have l: "i < length (posts d2)"
      unfolding d2 by (simp add: edit_target_post)
    have "texts (posts (evict d2) ! i) = texts (posts d2 ! i)"
      by (rule evict_post_field [OF _ l]) (simp add: stripped_def)
    moreover have "tags (posts (evict d2) ! i) = tags (posts d2 ! i)"
      by (rule evict_post_field [OF _ l]) (simp add: stripped_def)
    moreover have "updatedAt (posts (evict d2) ! i) = updatedAt (posts d2 ! i)"
      by (rule evict_post_field [OF _ l]) (simp add: stripped_def)
    ultimately show "texts (posts (data (snd ?r)) ! i) = ?tb \<and>
         tags (posts (data (snd ?r)) ! i) = ?tg \<and>
         updatedAt (posts (data (snd ?r)) ! i) = now_first env"
      unfolding dr d2 using i by (simp add: edit_target_post)
  qed
  have c6: "\<forall>i. mode = Edit \<and> targetPost = Some (ReplyRef i) \<and> i < length (replies (data w)) \<longrightarrow>
         texts (replies (data (snd ?r)) ! i) = ?tb \<and>
         tags (replies (data (snd ?r)) ! i) = ?tg \<and>
         updatedAt (replies (data (snd ?r)) ! i) = now_first env"
  proof (intro allI impI)
    fix i
    assume a: "mode = Edit \<and> targetPost = Some (ReplyRef i) \<and> i < length (replies (data w))"
    then have d2: "d2 = edit_target (ReplyRef i) ?tb ?tg (now_first env) inp
          (original_image targetPost (data w)) (fst ?st) (snd ?st)"
      by (simp add: d2_def)
    from a have i: "i < length (replies (snd ?st))"
      by (simp add: image_step_frame)
    show "texts (replies (data (snd ?r)) ! i) = ?tb \<and>
         tags (replies (data (snd ?r)) ! i) = ?tg \<and>
         updatedAt (replies (data (snd ?r)) ! i) = now_first env"
      unfolding dr d2 using i by (simp add: evict_replies edit_target_reply)
  qed
  from c1 c2 c3 c4 c5 c6
  show "fst ?r = Accepted \<and>
      stored (snd ?r) = Some (data (snd ?r)) \<and>
      (mode = ReplyMode \<longrightarrow>
         lastId (data (snd ?r)) = lastId (data w) + 1 \<and>
         map texts (replies (data (snd ?r))) = map texts (replies (data w)) @ [?tb] \<and>
         map tags (replies (data (snd ?r))) = map tags (replies (data w)) @ [?tg]) \<and>
      (mode = Create \<longrightarrow>
         lastId (data (snd ?r)) = lastId (data w) + 1 \<and>
         map texts (posts (data (snd ?r))) = map texts (posts (data w)) @ [?tb] \<and>
         map tags (posts (data (snd ?r))) = map tags (posts (data w)) @ [?tg]) \<and>
      (\<forall>i. mode = Edit \<and> targetPost = Some (PostRef i) \<and> i < length (posts (data w)) \<longrightarrow>
         texts (posts (data (snd ?r)) ! i) = ?tb \<and>
         tags (posts (data (snd ?r)) ! i) = ?tg \<and>
         updatedAt (posts (data (snd ?r)) ! i) = now_first env) \<and>
      (\<forall>i. mode = Edit \<and> targetPost = Some (ReplyRef i) \<and> i < length (replies (data w)) \<longrightarrow>
         texts (replies (data (snd ?r)) ! i) = ?tb \<and>
         tags (replies (data (snd ?r)) ! i) = ?tg \<and>
         updatedAt (replies (data (snd ?r)) ! i) = now_first env)"
    by (intro conjI)
qed

text \<open>
  Two submissions of the form for a new post on the empty document: one whose only
  block is blank, with a file chosen, and one with a text.
\<close>

definition blank_input :: form_input where
  "blank_input =
     \<lparr>blocks = [(''   '', ''ja'', '''')], imageDataUrl = Some ''data:image/png;base64,AAAA'',
      removeImage = False\<rparr>"

definition hello_input :: form_input where
  "hello_input =
     \<lparr>blocks = [('' hello #foo '', ''en-US'', '''')], imageDataUrl = None, removeImage = False\<rparr>"

definition first_click :: environment where
  "first_click = \<lparr>now_first = 1700000000000, now_second = 1700000000000,
                  minted_id = ''img-1700000000000-a1b2''\<rparr>"

definition empty_world :: world where
  "empty_world = \<lparr>data = defaultData, stored = None\<rparr>"

theorem submit_validation_witness:
  "\<not> list_ex (\<lambda>b. trim (fst b) \<noteq> []) (blocks blank_input) \<and>
   submit Create None 0 blank_input first_click empty_world = (Rejected, empty_world) \<and>
   list_ex (\<lambda>b. trim (fst b) \<noteq> []) (blocks hello_input) \<and>
   fst (submit Create None 0 hello_input first_click empty_world) = Accepted \<and>
   lastId (data (snd (submit Create None 0 hello_input first_click empty_world))) = 1 \<and>
   map texts (posts (data (snd (submit Create None 0 hello_input first_click empty_world))))
     = [[\<lparr>content = ''hello #foo'', language = ''en-US'', pronunciation = Some ''''\<rparr>]]"
proof -
  have blank: "\<not> list_ex (\<lambda>b. trim (fst b) \<noteq> []) (blocks blank_input)"
    by (simp add: blank_input_def trim_def is_space_def)
  have hello: "list_ex (\<lambda>b. trim (fst b) \<noteq> []) (blocks hello_input)"
    by (simp add: hello_input_def trim_def is_space_def)
  have tb: "text_blocks hello_input
            = [\<lparr>content = ''hello #foo'', language = ''en-US'', pronunciation = Some ''''\<rparr>]"
    by (simp add: text_blocks_def hello_input_def trim_def is_space_def)
  have start: "lastId (data empty_world) = 0" "posts (data empty_world) = []"
    by (simp_all add: empty_world_def defaultData_def)
  from submit_validation [of blank_input Create None 0 first_click empty_world] blank
  have r: "submit Create None 0 blank_input first_click empty_world = (Rejected, empty_world)"
    by blast
  note th = submit_validation [of hello_input Create None 0 first_click empty_world]
  from th hello
  have a: "fst (submit Create None 0 hello_input first_click empty_world) = Accepted"
    by blast
  from th hello
  have "lastId (data (snd (submit Create None 0 hello_input first_click empty_world)))
          = lastId (data empty_world) + 1 \<and>
        map texts (posts (data (snd (submit Create None 0 hello_input first_click empty_world))))
          = map texts (posts (data empty_world)) @ [text_blocks hello_input]"
    by blast
  then have
    "lastId (data (snd (submit Create None 0 hello_input first_click empty_world))) = 1 \<and>
     map texts (posts (data (snd (submit Create None 0 hello_input first_click empty_world))))
       = [[\<lparr>content = ''hello #foo'', language = ''en-US'', pronunciation = Some ''''\<rparr>]]"
    by (simp add: start tb)
  with blank r hello a show ?thesis by blast
qed

section \<open>Search\<close>

text \<open>
  \<open>toLowerCase\<close> on the code units U+0000 to U+00FF: A-Z and U+00C0-U+00DE without
  U+00D7 move up by 32, every other code unit stays.
\<close>

definition lower_char :: "char \<Rightarrow> char" where
  "lower_char c =
     (let n = (of_char c :: nat) in
      if (65 \<le> n \<and> n \<le> 90) \<or> (192 \<le> n \<and> n \<le> 222 \<and> n \<noteq> 215) then char_of (n + 32) else c)"

definition toLowerCase :: "string \<Rightarrow> string" where
  "toLowerCase s = map lower_char s"

definition startsWith :: "string \<Rightarrow> string \<Rightarrow> bool" where
  "startsWith s t = (take (length t) s = t)"

fun str_includes :: "string \<Rightarrow> string \<Rightarrow> bool" where
  "str_includes [] t = (t = [])"
| "str_includes (c # cs) t = (startsWith (c # cs) t \<or> str_includes cs t)"

text \<open>
  \<open>s.split(/\s+/)\<close>: the pieces of \<open>s\<close> between its maximal runs of white space; a
  run at either end leaves an empty piece there, and the empty string gives one empty
  piece.
\<close>

function split_ws :: "string \<Rightarrow> string list" where
  "split_ws s =
     (let w = takeWhile (\<lambda>c. \<not> is_space c) s;
          r = dropWhile (\<lambda>c. \<not> is_space c) s
      in if r = [] then [w] else w # split_ws (dropWhile is_space r))"
  by pat_completeness auto
termination
proof (relation "measure length")
  show "wf (measure length)" by simp
next
  fix s w r
  assume r: "r = dropWhile (\<lambda>c. \<not> is_space c) s" and ne: "r \<noteq> []"
  then have "is_space (hd r)"
    using hd_dropWhile [of "\<lambda>c. \<not> is_space c" s] by simp
  with ne have "length (dropWhile is_space r) < length r"
    by (cases r) (simp_all add: le_imp_less_Suc length_dropWhile_le)
  moreover have "length r \<le> length s"
    unfolding r by (rule length_dropWhile_le)
  ultimately show "(dropWhile is_space r, s) \<in> measure length" by simp
qed

declare split_ws.simps [simp del]

text \<open>
  \<open>runSearch()\<close>, with the value of the search input as its argument; the result is
  the list of posts it renders, in order (the empty-state message when there is none).
\<close>

definition runSearch :: "string \<Rightarrow> app_data \<Rightarrow> post list" where
  "runSearch input d =
     (let query = trim input;
          terms = filter (\<lambda>t. t \<noteq> []) (split_ws query);
          tagFilter = foldl (\<lambda>tf t. if startsWith t ''#'' then Some (drop 1 t) else tf) None terms;
          textTerms = filter (\<lambda>t. \<not> startsWith t ''#'') terms;
          results = filter (\<lambda>p. \<not> isDeleted p) (posts d);
          results1 =
            (if truthy tagFilter then
               (let tagLower = toLowerCase (the tagFilter)
                in filter (\<lambda>p. list_ex (\<lambda>tag. toLowerCase tag = tagLower) (tags p)) results)
             else results);
          results2 =
            (if textTerms \<noteq> [] then
               (let lowerTerms = map toLowerCase textTerms
                in filter
                     (\<lambda>p. list_all
                        (\<lambda>term. list_ex (\<lambda>t. str_includes (toLowerCase (content t)) term) (texts p))
                        lowerTerms)
                     results1)
             else results1)
      in sort_key (\<lambda>p. - int (createdAt p)) results2)"

subsection \<open>The search in the words of the specification\<close>

text \<open>The tokens of a query: its maximal runs of characters that are not white space.\<close>

function ws_tokens :: "string \<Rightarrow> string list" where
  "ws_tokens s =
     (case dropWhile is_space s of
        [] \<Rightarrow> []
      | c # cs \<Rightarrow>
          takeWhile (\<lambda>x. \<not> is_space x) (c # cs) #
          ws_tokens (dropWhile (\<lambda>x. \<not> is_space x) (c # cs)))"
  by pat_completeness auto
termination
proof (relation "measure length")
  show "wf (measure length)" by simp
next
  fix s c cs
  assume d: "dropWhile is_space s = c # cs"
  have "length (dropWhile (\<lambda>x. \<not> is_space x) (c # cs)) \<le> length (c # cs)"
    by (rule length_dropWhile_le)
  moreover have "\<not> is_space c"
    using hd_dropWhile [of is_space s] d by simp
  ultimately have "length (dropWhile (\<lambda>x. \<not> is_space x) (c # cs)) < length (c # cs)"
    by (simp add: le_imp_less_Suc length_dropWhile_le)
  moreover have "length (c # cs) \<le> length s"
    using length_dropWhile_le [of is_space s] d by simp
  ultimately show "(dropWhile (\<lambda>x. \<not> is_space x) (c # cs), s) \<in> measure length"
    by simp
qed

declare ws_tokens.simps [simp del]

definition hash_tokens :: "string \<Rightarrow> string list" where
  "hash_tokens q = filter (\<lambda>t. startsWith t ''#'') (ws_tokens q)"

definition text_tokens :: "string \<Rightarrow> string list" where
  "text_tokens q = filter (\<lambda>t. \<not> startsWith t ''#'') (ws_tokens q)"

text \<open>
  \<open>t\<close> occurs in \<open>s\<close> as a substring when case is ignored; the post has the tag
  \<open>name\<close> when case is ignored.
\<close>

definition contains_ci :: "string \<Rightarrow> string \<Rightarrow> bool" where
  "contains_ci s t \<longleftrightarrow> (\<exists>pre post. toLowerCase s = pre @ toLowerCase t @ post)"

definition has_tag_ci :: "post \<Rightarrow> string \<Rightarrow> bool" where
  "has_tag_ci p name \<longleftrightarrow> list_ex (\<lambda>tag. toLowerCase tag = toLowerCase name) (tags p)"

definition terms_match :: "string \<Rightarrow> post \<Rightarrow> bool" where
  "terms_match q p \<longleftrightarrow>
     list_all (\<lambda>term. list_ex (\<lambda>t. contains_ci (content t) term) (texts p)) (text_tokens q)"

text \<open>
  The filter as the specification words it: the last token that starts with \<open>#\<close>, if
  there is one, is the tag the post must have.
\<close>

definition stated_match :: "string \<Rightarrow> post \<Rightarrow> bool" where
  "stated_match q p \<longleftrightarrow>
     \<not> isDeleted p \<and>
     (hash_tokens q = [] \<or> has_tag_ci p (drop 1 (last (hash_tokens q)))) \<and>
     terms_match q p"

text \<open>
  The filter of the code: a last \<open>#\<close> token that is the bare \<open>#\<close> sets no tag
  filter.
\<close>

definition search_match :: "string \<Rightarrow> post \<Rightarrow> bool" where
  "search_match q p \<longleftrightarrow>
     \<not> isDeleted p \<and>
     (hash_tokens q = [] \<or> last (hash_tokens q) = ''#'' \<or>
      has_tag_ci p (drop 1 (last (hash_tokens q)))) \<and>
     terms_match q p"

definition newest_first :: "post list \<Rightarrow> post list" where
  "newest_first ps = sort_key (\<lambda>p. - int (createdAt p)) ps"

subsection \<open>The terms of the code are the tokens of the query\<close>

lemma ws_tokens_none:
  assumes "dropWhile is_space s = []"
  shows "ws_tokens s = []"
  by (subst ws_tokens.simps) (simp only: assms list.case)

lemma ws_tokens_some:
  assumes "dropWhile is_space s = c # cs"
  shows "ws_tokens s =
         takeWhile (\<lambda>x. \<not> is_space x) (c # cs) #
         ws_tokens (dropWhile (\<lambda>x. \<not> is_space x) (c # cs))"
  by (subst ws_tokens.simps) (simp only: assms list.case)

lemma ws_tokens_Nil: "ws_tokens [] = []"
  by (rule ws_tokens_none) simp

lemma ws_tokens_dropWhile: "ws_tokens (dropWhile is_space s) = ws_tokens s"
proof -
  have i: "dropWhile is_space (dropWhile is_space s) = dropWhile is_space s"
    by (simp add: dropWhile_idem)
  show ?thesis
  proof (cases "dropWhile is_space s")
    case Nil
    with i show ?thesis by (simp only: ws_tokens_none)
  next
    case (Cons c cs)
    with i have "dropWhile is_space (dropWhile is_space s) = c # cs" by simp
    then show ?thesis by (simp only: ws_tokens_some [OF Cons] ws_tokens_some)
  qed
qed

lemma ws_tokens_word:
  assumes "s \<noteq> []" and "\<not> is_space (hd s)"
  shows "ws_tokens s =
         takeWhile (\<lambda>x. \<not> is_space x) s # ws_tokens (dropWhile (\<lambda>x. \<not> is_space x) s)"
proof -
  from assms obtain c cs where s: "s = c # cs" and c: "\<not> is_space c"
    by (cases s) auto
  then have "dropWhile is_space s = c # cs" by simp
  then show ?thesis
    unfolding s by (rule ws_tokens_some)
qed

lemma split_ws_tokens: "filter (\<lambda>t. t \<noteq> []) (split_ws s) = ws_tokens s"
proof (induction s rule: split_ws.induct)
  case (1 s)
  let ?w = "takeWhile (\<lambda>c. \<not> is_space c) s" and ?r = "dropWhile (\<lambda>c. \<not> is_space c) s"
  show ?case
  proof (cases "?r = []")
    case True
    then have w: "?w = s"
      using takeWhile_dropWhile_id [of "\<lambda>c. \<not> is_space c" s] by simp
    have sp: "split_ws s = [s]"
      by (subst split_ws.simps) (simp add: Let_def True w)
    show ?thesis
    proof (cases "s = []")
      case True
      with sp show ?thesis by (simp add: ws_tokens_Nil)
    next
      case False
      then have "\<not> is_space (hd s)"
        using w by (cases s) (auto split: if_splits)
      from ws_tokens_word [OF False this] True w sp False show ?thesis
        by (simp add: ws_tokens_Nil)
    qed
  next
    case False
    let ?r' = "dropWhile is_space ?r"
    have sp: "split_ws s = ?w # split_ws ?r'"
      by (subst split_ws.simps) (simp only: Let_def False if_False)
    have IH: "filter (\<lambda>t. t \<noteq> []) (split_ws ?r') = ws_tokens ?r'"
      using "1.IH" [OF refl refl False] .
    have r': "ws_tokens ?r' = ws_tokens ?r"
      by (rule ws_tokens_dropWhile)
    show ?thesis
    proof (cases "?w = []")
      case True
      then have "?r = s"
        using takeWhile_dropWhile_id [of "\<lambda>c. \<not> is_space c" s] by simp
      with sp IH r' True show ?thesis by simp
    next
      case w: False
      then have "s \<noteq> []" and "\<not> is_space (hd s)"
        by (cases s; auto split: if_splits)+
      from ws_tokens_word [OF this] sp IH r' w show ?thesis by simp
    qed
  qed
qed

lemma ws_tokens_spaces:
  assumes "list_all is_space sps"
  shows "ws_tokens sps = []"
proof -
  from assms have "dropWhile is_space sps = []"
    by (simp add: list_all_iff)
  then show ?thesis by (rule ws_tokens_none)
qed

lemma ws_tokens_trailing:
  assumes "list_all is_space sps"
  shows "ws_tokens (t @ sps) = ws_tokens t"
proof (induction t rule: ws_tokens.induct)
  case (1 t)
  show ?case
  proof (cases "dropWhile is_space t")
    case Nil
    then have "list_all is_space t"
      by (simp add: list_all_iff)
    with assms have "list_all is_space (t @ sps)" by simp
    then have "ws_tokens (t @ sps) = []" by (rule ws_tokens_spaces)
    moreover have "ws_tokens t = []"
      using Nil by (rule ws_tokens_none)
    ultimately show ?thesis by simp
  next
    case (Cons c cs)
    let ?n = "\<lambda>x. \<not> is_space x"
    have c: "\<not> is_space c"
      using hd_dropWhile [of is_space t] Cons by simp
    have "dropWhile is_space t \<noteq> []"
      using Cons by simp
    then have ex: "\<exists>x \<in> set t. \<not> is_space x"
      by simp
    then obtain x where "x \<in> set t" and "\<not> is_space x" by blast
    then have "dropWhile is_space (t @ sps) = dropWhile is_space t @ sps"
      by (rule dropWhile_append1)
    then have d: "dropWhile is_space (t @ sps) = (c # cs) @ sps"
      using Cons by simp
    have lhs: "ws_tokens (t @ sps)
               = takeWhile ?n ((c # cs) @ sps) # ws_tokens (dropWhile ?n ((c # cs) @ sps))"
      using d by (simp only: ws_tokens_some append_Cons)
    have rhs: "ws_tokens t = takeWhile ?n (c # cs) # ws_tokens (dropWhile ?n (c # cs))"
      using Cons by (rule ws_tokens_some)
    have sps: "takeWhile ?n sps = []" "dropWhile ?n sps = sps"
      using assms by (cases sps; simp)+
    show ?thesis
    proof (cases "list_all ?n (c # cs)")
      case True
      then have "takeWhile ?n ((c # cs) @ sps) = c # cs"
        and "dropWhile ?n ((c # cs) @ sps) = sps"
        and "takeWhile ?n (c # cs) = c # cs" and "dropWhile ?n (c # cs) = []"
        using sps by (simp_all add: list_all_iff)
      with lhs rhs show ?thesis
        by (simp add: ws_tokens_spaces [OF assms] ws_tokens_Nil)
    next
      case False
      then have e: "\<exists>x \<in> set (c # cs). \<not> ?n x"
        by (simp add: list_all_iff)
      then obtain y where y: "y \<in> set (c # cs)" "\<not> ?n y" by blast
      have "takeWhile ?n ((c # cs) @ sps) = takeWhile ?n (c # cs)"
        using y by (rule takeWhile_append1)
      moreover have dd: "dropWhile ?n ((c # cs) @ sps) = dropWhile ?n (c # cs) @ sps"
        using y by (rule dropWhile_append1)
      moreover have "ws_tokens (dropWhile ?n (c # cs) @ sps) = ws_tokens (dropWhile ?n (c # cs))"
        by (rule "1.IH" [OF Cons])
      ultimately show ?thesis using lhs rhs by (simp only:)
    qed
  qed
qed

lemma ws_tokens_trim: "ws_tokens (trim s) = ws_tokens s"
proof -
  let ?t = "dropWhile is_space s"
  let ?sps = "rev (takeWhile is_space (rev ?t))"
  have "list_all is_space ?sps"
    by (auto simp: list_all_iff dest: set_takeWhileD)
  then have "ws_tokens (trim s @ ?sps) = ws_tokens (trim s)"
    by (rule ws_tokens_trailing)
  moreover have "trim s @ ?sps = ?t"
  proof -
    have "trim s @ ?sps = rev (takeWhile is_space (rev ?t) @ dropWhile is_space (rev ?t))"
      by (simp only: trim_def rev_append)
    also have "\<dots> = ?t"
      by (simp only: takeWhile_dropWhile_id rev_rev_ident)
    finally show ?thesis .
  qed
  ultimately show ?thesis by (simp add: ws_tokens_dropWhile)
qed

lemma terms_of_query: "filter (\<lambda>t. t \<noteq> []) (split_ws (trim q)) = ws_tokens q"
  by (simp add: split_ws_tokens ws_tokens_trim)

subsection \<open>The filters of the code are the filters of the specification\<close>

lemma startsWith_iff: "startsWith s t \<longleftrightarrow> (\<exists>post. s = t @ post)"
proof
  assume "startsWith s t"
  then have "s = t @ drop (length t) s"
    using append_take_drop_id [of "length t" s] by (simp add: startsWith_def)
  then show "\<exists>post. s = t @ post" ..
next
  assume "\<exists>post. s = t @ post"
  then show "startsWith s t" by (auto simp: startsWith_def)
qed

lemma str_includes_iff: "str_includes s t \<longleftrightarrow> (\<exists>pre post. s = pre @ t @ post)"
proof (induction s)
  case Nil
  show ?case by auto
next
  case (Cons c cs)
  show ?case
  proof
    assume "str_includes (c # cs) t"
    then have "startsWith (c # cs) t \<or> str_includes cs t" by simp
    then show "\<exists>pre post. c # cs = pre @ t @ post"
    proof
      assume "startsWith (c # cs) t"
      then obtain post where "c # cs = [] @ t @ post"
        by (auto simp: startsWith_iff)
      then show ?thesis by blast
    next
      assume "str_includes cs t"
      with Cons.IH obtain pre post where "cs = pre @ t @ post" by blast
      then have "c # cs = (c # pre) @ t @ post" by simp
      then show ?thesis by blast
    qed
  next
    assume "\<exists>pre post. c # cs = pre @ t @ post"
    then obtain pre post where e: "c # cs = pre @ t @ post" by blast
    show "str_includes (c # cs) t"
    proof (cases pre)
      case Nil
      with e have "startsWith (c # cs) t" by (auto simp: startsWith_iff)
      then show ?thesis by simp
    next
      case (Cons p pre')
      with e have "cs = pre' @ t @ post" by simp
      with Cons.IH have "str_includes cs t" by blast
      then show ?thesis by simp
    qed
  qed
qed

lemma includes_contains_ci:
  "str_includes (toLowerCase s) (toLowerCase t) \<longleftrightarrow> contains_ci s t"
  by (simp add: str_includes_iff contains_ci_def)

lemma last_hash_wins:
  "foldl (\<lambda>tf t. if startsWith t ''#'' then Some (drop 1 t) else tf) None ts
   = (if filter (\<lambda>t. startsWith t ''#'') ts = [] then None
      else Some (drop 1 (last (filter (\<lambda>t. startsWith t ''#'') ts))))"
  by (induction ts rule: rev_induct) simp_all

lemma bare_hash:
  assumes "startsWith t ''#''"
  shows "drop 1 t = [] \<longleftrightarrow> t = ''#''"
proof -
  from assms obtain post where "t = ''#'' @ post"
    by (auto simp: startsWith_iff)
  then show ?thesis by auto
qed

lemma tag_stage:
  "(if truthy (if hash_tokens q = [] then None else Some (drop 1 (last (hash_tokens q))))
    then filter
           (\<lambda>p. list_ex
              (\<lambda>tag. toLowerCase tag
                 = toLowerCase
                     (the (if hash_tokens q = [] then None
                           else Some (drop 1 (last (hash_tokens q))))))
              (tags p))
           rs
    else rs)
   = filter
       (\<lambda>p. hash_tokens q = [] \<or> last (hash_tokens q) = ''#'' \<or>
            has_tag_ci p (drop 1 (last (hash_tokens q))))
       rs"
proof (cases "hash_tokens q = []")
  case True
  then show ?thesis by simp
next
  case False
  then have "last (hash_tokens q) \<in> set (hash_tokens q)" by simp
  then have "startsWith (last (hash_tokens q)) ''#''"
    by (simp add: hash_tokens_def)
  then have b: "drop 1 (last (hash_tokens q)) = [] \<longleftrightarrow> last (hash_tokens q) = ''#''"
    by (rule bare_hash)
  show ?thesis
  proof (cases "last (hash_tokens q) = ''#''")
    case True
    with False b show ?thesis by simp
  next
    case bare: False
    with b have "drop 1 (last (hash_tokens q)) \<noteq> []" by simp
    with False bare show ?thesis by (simp add: has_tag_ci_def)
  qed
qed

lemma text_stage:
  "(if text_tokens q \<noteq> [] then
      filter
        (\<lambda>p. list_all
           (\<lambda>term. list_ex (\<lambda>t. str_includes (toLowerCase (content t)) term) (texts p))
           (map toLowerCase (text_tokens q)))
        rs
    else rs)
   = filter (terms_match q) rs"
proof -
  have "list_all
          (\<lambda>term. list_ex (\<lambda>t. str_includes (toLowerCase (content t)) term) (texts p))
          (map toLowerCase (text_tokens q))
        \<longleftrightarrow> terms_match q p" for p
    by (simp add: terms_match_def list_all_iff includes_contains_ci)
  moreover have "text_tokens q = [] \<Longrightarrow> terms_match q p" for p
    by (simp add: terms_match_def)
  ultimately show ?thesis by simp
qed

lemma runSearch_eq: "runSearch q d = newest_first (filter (search_match q) (posts d))"
proof -
  let ?rs = "filter (\<lambda>p. \<not> isDeleted p) (posts d)"
  let ?tag = "\<lambda>p. hash_tokens q = [] \<or> last (hash_tokens q) = ''#'' \<or>
                  has_tag_ci p (drop 1 (last (hash_tokens q)))"
  have "runSearch q d = newest_first (filter (terms_match q) (filter ?tag ?rs))"
    unfolding runSearch_def Let_def terms_of_query last_hash_wins
      hash_tokens_def [symmetric] text_tokens_def [symmetric] tag_stage text_stage
      newest_first_def
    by (rule refl)
  also have "filter (terms_match q) (filter ?tag ?rs) = filter (search_match q) (posts d)"
    unfolding filter_filter by (rule filter_cong) (auto simp: search_match_def)
  finally show ?thesis .
qed

lemma newest_first_sorted:
  "sorted_wrt (\<lambda>a b. createdAt b \<le> createdAt a) (newest_first ps)"
proof -
  have "sorted (map (\<lambda>p. - int (createdAt p)) (newest_first ps))"
    unfolding newest_first_def by (rule sorted_sort_key)
  then show ?thesis by (simp add: sorted_map)
qed

lemma travel_sushi_tokens:
  "ws_tokens ''#travel sushi'' = [''#travel'', ''sushi'']"
  "ws_tokens ''#travel SUSHI'' = [''#travel'', ''SUSHI'']"
  by (simp_all add: ws_tokens.simps is_space_def)

lemma lower_SUSHI: "toLowerCase ''SUSHI'' = toLowerCase ''sushi''"
  by code_simp

text \<open>
  C8, as the code has it. \<open>runSearch\<close> returns the posts that are not deleted, that
  have the tag named by the last token starting with \<open>#\<close> when there is such a token
  and it is not the bare \<open>#\<close> (a bare \<open>#\<close> in that place sets no tag filter), and in
  which every other token occurs in the content of some text, all of this with case
  ignored; the posts come newest first. The tokens are the maximal runs of characters
  of the query that are not white space. The queries \<open>#travel sushi\<close> and
  \<open>#travel SUSHI\<close> return the posts tagged \<open>travel\<close> with a text containing
  \<open>sushi\<close>.
\<close>

theorem runSearch_matches:
  "runSearch q d = newest_first (filter (search_match q) (posts d)) \<and>
   sorted_wrt (\<lambda>a b. createdAt b \<le> createdAt a) (runSearch q d) \<and>
   runSearch ''#travel sushi'' d
     = newest_first
         (filter
            (\<lambda>p. \<not> isDeleted p \<and> has_tag_ci p ''travel'' \<and>
                 list_ex (\<lambda>t. contains_ci (content t) ''sushi'') (texts p))
            (posts d)) \<and>
   runSearch ''#travel SUSHI'' d = runSearch ''#travel sushi'' d"
proof -
  have h: "hash_tokens ''#travel sushi'' = [''#travel'']"
    "hash_tokens ''#travel SUSHI'' = [''#travel'']"
    by (simp_all add: hash_tokens_def travel_sushi_tokens startsWith_def)
  have t: "text_tokens ''#travel sushi'' = [''sushi'']"
    "text_tokens ''#travel SUSHI'' = [''SUSHI'']"
    by (simp_all add: text_tokens_def travel_sushi_tokens startsWith_def)
  have ci: "contains_ci s ''SUSHI'' = contains_ci s ''sushi''" for s
    by (simp add: contains_ci_def lower_SUSHI)
  have m: "search_match ''#travel sushi''
           = (\<lambda>p. \<not> isDeleted p \<and> has_tag_ci p ''travel'' \<and>
                  list_ex (\<lambda>t. contains_ci (content t) ''sushi'') (texts p))"
    by (rule ext) (simp add: search_match_def terms_match_def h t)
  have m': "search_match ''#travel SUSHI'' = search_match ''#travel sushi''"
    by (rule ext) (simp add: search_match_def terms_match_def h t ci)
  have "sorted_wrt (\<lambda>a b. createdAt b \<le> createdAt a) (runSearch q d)"
    unfolding runSearch_eq by (rule newest_first_sorted)
  then show ?thesis
    by (simp add: runSearch_eq m m')
qed

text \<open>Three posts: the first alone is tagged \<open>travel\<close> and mentions sushi.\<close>

definition post_P1 :: post where
  "post_P1 =
     \<lparr>entry_id = 1,
      texts = [\<lparr>content = ''Lunch in Tokyo #travel'', language = ''en-US'', pronunciation = Some ''''\<rparr>,
               \<lparr>content = ''I ate Sushi'', language = ''en-US'', pronunciation = Some ''''\<rparr>],
      tags = [''travel''], createdAt = 1700000000000, updatedAt = 1700000000000,
      imageId = None, imageRemoved = Some False, isDeleted = False,
      liked = False, likedAt = None, repostOf = None\<rparr>"

definition post_P2 :: post where
  "post_P2 =
     \<lparr>entry_id = 2,
      texts = [\<lparr>content = ''Ramen night #travel'', language = ''en-US'', pronunciation = Some ''''\<rparr>],
      tags = [''travel''], createdAt = 1700000060000, updatedAt = 1700000060000,
      imageId = None, imageRemoved = Some False, isDeleted = False,
      liked = False, likedAt = None, repostOf = None\<rparr>"

definition post_P3 :: post where
  "post_P3 =
     \<lparr>entry_id = 3,
      texts = [\<lparr>content = ''sushi at home #food'', language = ''en-US'', pronunciation = Some ''''\<rparr>],
      tags = [''food''], createdAt = 1700000120000, updatedAt = 1700000120000,
      imageId = None, imageRemoved = Some False, isDeleted = False,
      liked = False, likedAt = None, repostOf = None\<rparr>"

definition search_doc :: app_data where
  "search_doc =
     \<lparr>version = 1, posts = [post_P1, post_P2, post_P3], replies = [], images = [], lastId = 3\<rparr>"

lemmas search_eval =
  startsWith_def toLowerCase_def lower_char_def char_of_def bit_0
  search_doc_def post_P1_def post_P2_def post_P3_def

theorem runSearch_matches_witness:
  "runSearch ''#travel sushi'' search_doc = [post_P1] \<and>
   runSearch ''#travel SUSHI'' search_doc = [post_P1] \<and>
   runSearch ''#travel #'' search_doc = [post_P3, post_P2, post_P1]"
proof -
  have a: "runSearch ''#travel sushi'' search_doc = [post_P1]"
    unfolding runSearch_def Let_def terms_of_query travel_sushi_tokens
    by (simp add: search_eval)
  have w: "ws_tokens ''#travel #'' = [''#travel'', ''#'']"
    by (simp add: ws_tokens.simps is_space_def)
  have b: "runSearch ''#travel #'' search_doc = [post_P3, post_P2, post_P1]"
    unfolding runSearch_def Let_def terms_of_query w
    by (simp add: search_eval)
  from runSearch_matches [of "''#travel sushi''" search_doc]
  have "runSearch ''#travel SUSHI'' search_doc = runSearch ''#travel sushi'' search_doc"
    by blast
  with a b show ?thesis by simp
qed

text \<open>
  C8 as stated fails on the query \<open>#\<close>: its only token starts with \<open>#\<close>, so the
  stated filter asks for a tag with the empty name, which the post of
  \<open>tagged_world\<close> does not have; \<open>runSearch\<close> returns that post.
\<close>

theorem runSearch_bare_hash_counterexample:
  "runSearch ''#'' (data tagged_world) = [tagged_post] \<and>
   newest_first (filter (stated_match ''#'') (posts (data tagged_world))) = []"
proof -
  have w: "ws_tokens ''#'' = [''#'']"
    by (simp add: ws_tokens.simps is_space_def)
  have "runSearch ''#'' (data tagged_world) = [tagged_post]"
    unfolding runSearch_def Let_def terms_of_query w
    by (simp add: startsWith_def tagged_world_def) (simp add: tagged_post_def)
  moreover have "\<not> stated_match ''#'' tagged_post"
    by (simp add: stated_match_def hash_tokens_def w startsWith_def has_tag_ci_def
        tagged_post_def toLowerCase_def)
  ultimately show ?thesis
    by (simp add: tagged_world_def newest_first_def)
qed

end
